theory Spec2Isabelle
  imports Main "HOL-Library.Word" "HOL-Library.Monad_Syntax"
begin

unbundle bit_operations_syntax

section \<open>The allocator of \<^verbatim>\<open>Malloc_Lab/mm.c\<close>\<close>

text \<open>
  The allocator keeps an implicit list of blocks inside one contiguous region obtained
  from \<^verbatim>\<open>mem_sbrk\<close>. Every block carries a 32-bit header and footer word holding the
  block size (a multiple of 8) and, in bit 0, the allocated flag.

  Modelling decisions:
  \<^item> addresses are integers (\<^verbatim>\<open>char *\<close> arithmetic never wraps inside an object);
    \<^verbatim>\<open>NULL\<close> is 0 and the failure sentinel \<^verbatim>\<open>(void *)-1\<close> is \<open>-1\<close>;
  \<^item> \<^verbatim>\<open>uint32_t\<close> and \<^verbatim>\<open>size_t\<close> are \<open>32 word\<close> (the header layout of the
    source is 32 bits wide and block pointers are cast to \<^verbatim>\<open>uint32_t\<close>), so that
    \<open>+\<close>, \<open>-\<close> and \<open>*\<close> wrap as in C;
  \<^item> memory is a function from addresses to bytes; a word is stored little-endian;
  \<^item> an access outside the region handed out so far by \<^verbatim>\<open>mem_sbrk\<close> is a memory
    fault: the operation returns \<open>None\<close>;
  \<^item> the globals \<^verbatim>\<open>heap_listp\<close> and \<^verbatim>\<open>next_fit_ptr\<close> are fields of the state.
\<close>

type_synonym addr = int
type_synonym byte = "8 word"
type_synonym uint32 = "32 word"

record mm_state =
  mem :: "addr \<Rightarrow> byte"
  mem_start_brk :: addr
  mem_brk :: addr
  mem_max_addr :: addr
  heap_listp :: addr
  next_fit_ptr :: addr

subsection \<open>Constants and macros\<close>

abbreviation (input) WSIZE :: "'a::numeral" where "WSIZE \<equiv> 4"
abbreviation (input) DSIZE :: "'a::numeral" where "DSIZE \<equiv> 8"
abbreviation (input) CHUNKSIZE :: "'a::numeral" where "CHUNKSIZE \<equiv> 65536"
abbreviation (input) OVERHEAD :: "'a::numeral" where "OVERHEAD \<equiv> 8"
abbreviation (input) NULL :: addr where "NULL \<equiv> 0"

definition MAX_u32 :: "uint32 \<Rightarrow> uint32 \<Rightarrow> uint32" where
  "MAX_u32 x y = (if x > y then x else y)"

definition PACK :: "uint32 \<Rightarrow> uint32 \<Rightarrow> uint32" where
  "PACK sz alloc = sz OR alloc"

definition load32 :: "(addr \<Rightarrow> byte) \<Rightarrow> addr \<Rightarrow> uint32" where
  "load32 m p = ucast (m p) OR push_bit 8 (ucast (m (p + 1)))
     OR push_bit 16 (ucast (m (p + 2))) OR push_bit 24 (ucast (m (p + 3)))"

definition store32 :: "(addr \<Rightarrow> byte) \<Rightarrow> addr \<Rightarrow> uint32 \<Rightarrow> (addr \<Rightarrow> byte)" where
  "store32 m p v = m(p := ucast v, p + 1 := ucast (drop_bit 8 v),
     p + 2 := ucast (drop_bit 16 v), p + 3 := ucast (drop_bit 24 v))"

definition in_heap :: "mm_state \<Rightarrow> addr \<Rightarrow> int \<Rightarrow> bool" where
  "in_heap s p n \<longleftrightarrow> mem_start_brk s \<le> p \<and> p + n \<le> mem_brk s"

definition GET :: "mm_state \<Rightarrow> addr \<Rightarrow> uint32 option" where
  "GET s p = (if in_heap s p 4 then Some (load32 (mem s) p) else None)"

definition PUT :: "mm_state \<Rightarrow> addr \<Rightarrow> uint32 \<Rightarrow> mm_state option" where
  "PUT s p val = (if in_heap s p 4 then Some (s\<lparr>mem := store32 (mem s) p val\<rparr>) else None)"

definition GET_SIZE :: "mm_state \<Rightarrow> addr \<Rightarrow> uint32 option" where
  "GET_SIZE s p = do { w \<leftarrow> GET s p; Some (w AND NOT 7) }"

definition GET_ALLOC :: "mm_state \<Rightarrow> addr \<Rightarrow> uint32 option" where
  "GET_ALLOC s p = do { w \<leftarrow> GET s p; Some (w AND 1) }"

definition HDRP :: "addr \<Rightarrow> addr" where
  "HDRP bp = bp - WSIZE"

definition FTRP :: "mm_state \<Rightarrow> addr \<Rightarrow> addr option" where
  "FTRP s bp = do { sz \<leftarrow> GET_SIZE s (HDRP bp); Some (bp + uint sz - DSIZE) }"

definition NEXT_BLKP :: "mm_state \<Rightarrow> addr \<Rightarrow> addr option" where
  "NEXT_BLKP s bp = do { sz \<leftarrow> GET_SIZE s (bp - WSIZE); Some (bp + uint sz) }"

definition PREV_BLKP :: "mm_state \<Rightarrow> addr \<Rightarrow> addr option" where
  "PREV_BLKP s bp = do { sz \<leftarrow> GET_SIZE s (bp - DSIZE); Some (bp - uint sz) }"

subsection \<open>The memory source\<close>

text \<open>
  Modelled from the spec: \<^verbatim>\<open>mem_sbrk\<close> lives in \<^verbatim>\<open>memlib.c\<close>, which is not part of the
  sources at hand. The specification describes it as the single capability
  ``extend the managed region by N bytes, returning the starting address of the new
  region or a failure sentinel''. The region grows from \<open>mem_brk\<close> up to at most
  \<open>mem_max_addr\<close>; the sentinel is \<^verbatim>\<open>(void *)-1\<close>, as \<^verbatim>\<open>extend_heap\<close> tests for it.
\<close>

definition mem_sbrk :: "mm_state \<Rightarrow> int \<Rightarrow> mm_state \<times> addr" where
  "mem_sbrk s incr =
     (if incr < 0 \<or> mem_brk s + incr > mem_max_addr s then (s, - 1)
      else (s\<lparr>mem_brk := mem_brk s + incr\<rparr>, mem_brk s))"

subsection \<open>\<^verbatim>\<open>coalesce\<close>: boundary tag coalescing\<close>

definition coalesce :: "mm_state \<Rightarrow> addr \<Rightarrow> (mm_state \<times> addr) option" where
  "coalesce s bp = do {
     pb \<leftarrow> PREV_BLKP s bp;
     pf \<leftarrow> FTRP s pb;
     prev_alloc \<leftarrow> GET_ALLOC s pf;
     nb \<leftarrow> NEXT_BLKP s bp;
     next_alloc \<leftarrow> GET_ALLOC s (HDRP nb);
     sz \<leftarrow> GET_SIZE s (HDRP bp);
     if prev_alloc \<noteq> 0 \<and> next_alloc \<noteq> 0 then
       Some (s, bp)
     else if prev_alloc \<noteq> 0 \<and> next_alloc = 0 then do {
       nsz \<leftarrow> GET_SIZE s (HDRP nb);
       let sz = sz + nsz;
       s1 \<leftarrow> PUT s (HDRP bp) (PACK sz 0);
       fp \<leftarrow> FTRP s1 bp;
       s2 \<leftarrow> PUT s1 fp (PACK sz 0);
       Some (s2\<lparr>next_fit_ptr := bp\<rparr>, bp)
     }
     else if prev_alloc = 0 \<and> next_alloc \<noteq> 0 then do {
       psz \<leftarrow> GET_SIZE s (HDRP pb);
       let sz = sz + psz;
       fp \<leftarrow> FTRP s bp;
       s1 \<leftarrow> PUT s fp (PACK sz 0);
       pb1 \<leftarrow> PREV_BLKP s1 bp;
       s2 \<leftarrow> PUT s1 (HDRP pb1) (PACK sz 0);
       bp' \<leftarrow> PREV_BLKP s2 bp;
       Some (s2\<lparr>next_fit_ptr := bp'\<rparr>, bp')
     }
     else do {
       psz \<leftarrow> GET_SIZE s (HDRP pb);
       nf \<leftarrow> FTRP s nb;
       nsz \<leftarrow> GET_SIZE s nf;
       let sz = sz + (psz + nsz);
       pb1 \<leftarrow> PREV_BLKP s bp;
       s1 \<leftarrow> PUT s (HDRP pb1) (PACK sz 0);
       nb1 \<leftarrow> NEXT_BLKP s1 bp;
       nf1 \<leftarrow> FTRP s1 nb1;
       s2 \<leftarrow> PUT s1 nf1 (PACK sz 0);
       bp' \<leftarrow> PREV_BLKP s2 bp;
       Some (s2\<lparr>next_fit_ptr := bp'\<rparr>, bp')
     }
   }"

subsection \<open>\<^verbatim>\<open>extend_heap\<close>\<close>

definition extend_heap :: "mm_state \<Rightarrow> uint32 \<Rightarrow> (mm_state \<times> addr) option" where
  "extend_heap s words =
     (let sz = (if words mod 2 \<noteq> 0 then (words + 1) * WSIZE else words * WSIZE) in
      case mem_sbrk s (uint sz) of (s0, bp) \<Rightarrow>
        if bp = - 1 then Some (s0, NULL)
        else do {
          s1 \<leftarrow> PUT s0 (HDRP bp) (PACK sz 0);
          fp \<leftarrow> FTRP s1 bp;
          s2 \<leftarrow> PUT s1 fp (PACK sz 0);
          nb \<leftarrow> NEXT_BLKP s2 bp;
          s3 \<leftarrow> PUT s2 (HDRP nb) (PACK 0 1);
          coalesce s3 bp
        })"

subsection \<open>\<^verbatim>\<open>mm_init\<close>\<close>

definition mm_init :: "mm_state \<Rightarrow> (mm_state \<times> int) option" where
  "mm_init s =
     (case mem_sbrk s (4 * WSIZE) of (s0, p) \<Rightarrow>
        let s1 = s0\<lparr>heap_listp := p\<rparr> in
        if p = NULL then Some (s1, - 1)
        else do {
          s2 \<leftarrow> PUT s1 (heap_listp s1) 0;
          s3 \<leftarrow> PUT s2 (heap_listp s2 + WSIZE) (PACK OVERHEAD 1);
          let s4 = s3\<lparr>heap_listp := heap_listp s3 + DSIZE\<rparr>;
          s5 \<leftarrow> PUT s4 (heap_listp s4) (PACK OVERHEAD 1);
          s6 \<leftarrow> PUT s5 (heap_listp s5 + WSIZE) (PACK 0 1);
          let s7 = s6\<lparr>next_fit_ptr := heap_listp s6\<rparr>;
          (s8, bp) \<leftarrow> extend_heap s7 (CHUNKSIZE div WSIZE);
          if bp = NULL then Some (s8, - 1) else Some (s8, 0)
        })"

subsection \<open>\<^verbatim>\<open>place\<close>\<close>

definition place :: "mm_state \<Rightarrow> addr \<Rightarrow> uint32 \<Rightarrow> mm_state option" where
  "place s bp asize = do {
     csize \<leftarrow> GET_SIZE s (HDRP bp);
     if csize - asize \<ge> DSIZE + OVERHEAD then do {
       s1 \<leftarrow> PUT s (HDRP bp) (PACK asize 1);
       fp \<leftarrow> FTRP s1 bp;
       s2 \<leftarrow> PUT s1 fp (PACK asize 1);
       bp' \<leftarrow> NEXT_BLKP s2 bp;
       s3 \<leftarrow> PUT s2 (HDRP bp') (PACK (csize - asize) 0);
       fp' \<leftarrow> FTRP s3 bp';
       PUT s3 fp' (PACK (csize - asize) 0)
     }
     else do {
       s1 \<leftarrow> PUT s (HDRP bp) (PACK csize 1);
       fp \<leftarrow> FTRP s1 bp;
       PUT s1 fp (PACK csize 1)
     }
   }"

subsection \<open>\<^verbatim>\<open>find_fit\<close>: next fit\<close>

text \<open>
  The \<^verbatim>\<open>for\<close> loop of \<^verbatim>\<open>find_fit\<close>. The body reads the same header word for the
  loop test and for the fit test, so the size is read once. The result is \<open>None\<close> on a memory fault,
  \<open>Some None\<close> when a header of size 0 is reached, and \<open>Some (Some bp)\<close> for a fit.
  Every step moves \<open>bp\<close> up by a positive size and a header beyond \<open>mem_brk\<close> faults,
  hence the loop terminates.
\<close>

function find_fit_loop :: "mm_state \<Rightarrow> uint32 \<Rightarrow> addr \<Rightarrow> addr option option" where
  "find_fit_loop s asize bp = do {
     sz \<leftarrow> GET_SIZE s (HDRP bp);
     if sz > 0 then do {
       alloc \<leftarrow> GET_ALLOC s (HDRP bp);
       if alloc = 0 \<and> asize \<le> sz then Some (Some bp)
       else do {
         nb \<leftarrow> NEXT_BLKP s bp;
         find_fit_loop s asize nb
       }
     }
     else Some None
   }"
  by pat_completeness auto
termination
proof (relation "measure (\<lambda>(s, asize, bp). nat (mem_brk s + 4 - bp))")
  show "wf (measure (\<lambda>(s, asize, bp). nat (mem_brk s + 4 - bp)))"
    by simp
next
  fix s :: mm_state and asize :: uint32 and bp nb :: addr and sz :: uint32
  assume g: "GET_SIZE s (HDRP bp) = Some sz" and pos: "0 < sz"
    and n: "NEXT_BLKP s bp = Some nb"
  from g have "bp \<le> mem_brk s"
    by (auto simp: GET_SIZE_def GET_def HDRP_def in_heap_def split: if_splits)
  moreover from pos have "0 < uint sz"
    by (simp add: word_less_def)
  moreover from g n have "nb = bp + uint sz"
    by (simp add: NEXT_BLKP_def HDRP_def)
  ultimately show "((s, asize, nb), (s, asize, bp))
      \<in> measure (\<lambda>(s, asize, bp). nat (mem_brk s + 4 - bp))"
    by simp
qed

definition find_fit :: "mm_state \<Rightarrow> uint32 \<Rightarrow> (mm_state \<times> addr) option" where
  "find_fit s asize =
     (case find_fit_loop s asize (next_fit_ptr s) of
        None \<Rightarrow> None
      | Some (Some bp) \<Rightarrow> Some (s\<lparr>next_fit_ptr := bp\<rparr>, bp)
      | Some None \<Rightarrow> Some (s\<lparr>next_fit_ptr := heap_listp s\<rparr>, NULL))"

subsection \<open>\<^verbatim>\<open>mm_malloc\<close>, \<^verbatim>\<open>mm_free\<close>, \<^verbatim>\<open>mm_realloc\<close>\<close>

definition adjust_size :: "uint32 \<Rightarrow> uint32" where
  "adjust_size sz =
     (if sz \<le> DSIZE then DSIZE + OVERHEAD
      else DSIZE * ((sz + OVERHEAD + (DSIZE - 1)) div DSIZE))"

definition mm_malloc :: "mm_state \<Rightarrow> uint32 \<Rightarrow> (mm_state \<times> addr) option" where
  "mm_malloc s sz =
     (if sz \<le> 0 then Some (s, NULL)
      else
        let asize = adjust_size sz in do {
          (s1, bp) \<leftarrow> find_fit s asize;
          if bp \<noteq> NULL then do {
            s2 \<leftarrow> place s1 bp asize;
            nb \<leftarrow> NEXT_BLKP s2 bp;
            Some (s2\<lparr>next_fit_ptr := nb\<rparr>, bp)
          }
          else
            let extendsize = MAX_u32 asize CHUNKSIZE in do {
              (s2, bp) \<leftarrow> extend_heap s1 (extendsize div WSIZE);
              if bp = NULL then Some (s2, NULL)
              else do {
                s3 \<leftarrow> place s2 bp asize;
                nb \<leftarrow> NEXT_BLKP s3 bp;
                Some (s3\<lparr>next_fit_ptr := nb\<rparr>, bp)
              }
            }
        })"

definition mm_free :: "mm_state \<Rightarrow> addr \<Rightarrow> mm_state option" where
  "mm_free s bp = do {
     sz \<leftarrow> GET_SIZE s (HDRP bp);
     s1 \<leftarrow> PUT s (HDRP bp) (PACK sz 0);
     fp \<leftarrow> FTRP s1 bp;
     s2 \<leftarrow> PUT s1 fp (PACK sz 0);
     (s3, _) \<leftarrow> coalesce s2 bp;
     Some s3
   }"

text \<open>
  \<^verbatim>\<open>memcpy\<close> of \<open>n\<close> bytes. Both ranges must lie inside the heap region; the C library
  leaves overlapping ranges undefined, which is a fault here as well.
\<close>

definition memcpy :: "mm_state \<Rightarrow> addr \<Rightarrow> addr \<Rightarrow> uint32 \<Rightarrow> mm_state option" where
  "memcpy s dst src n =
     (if n = 0 then Some s
      else if in_heap s dst (uint n) \<and> in_heap s src (uint n)
              \<and> (dst + uint n \<le> src \<or> src + uint n \<le> dst)
      then Some (s\<lparr>mem := (\<lambda>a. if dst \<le> a \<and> a < dst + uint n then mem s (src + (a - dst))
                               else mem s a)\<rparr>)
      else None)"

text \<open>
  \<^verbatim>\<open>mm_realloc\<close> either returns a pointer or prints a message and terminates the
  process with \<^verbatim>\<open>exit(1)\<close>.
\<close>

datatype outcome = Returned mm_state addr | Exited string int

definition mm_realloc :: "mm_state \<Rightarrow> addr \<Rightarrow> uint32 \<Rightarrow> outcome option" where
  "mm_realloc s ptr sz = do {
     (s1, newp) \<leftarrow> mm_malloc s sz;
     if newp = NULL then Some (Exited ''ERROR: mm_malloc failed in mm_realloc'' 1)
     else do {
       copySize \<leftarrow> GET_SIZE s1 (HDRP ptr);
       let copySize = (if sz < copySize then sz else copySize);
       s2 \<leftarrow> memcpy s1 newp ptr copySize;
       s3 \<leftarrow> mm_free s2 ptr;
       Some (Returned s3 newp)
     }
   }"

subsection \<open>\<^verbatim>\<open>mm_checkheap\<close>\<close>

text \<open>
  The consistency checker only prints. Its output is modelled as the list of lines
  printed, one constructor per \<^verbatim>\<open>printf\<close> format of the source; a block line carries
  the values substituted into \<^verbatim>\<open>"%p: header: [%d:%c] footer: [%d:%c]"\<close>. The
  short-circuit \<^verbatim>\<open>||\<close> of the two sentinel tests is a nested conditional.
\<close>

datatype diag =
    HeapLine addr
  | BlockLine addr uint32 char uint32 char
  | EOL addr
  | NotAligned addr
  | HeaderFooterMismatch
  | BadPrologue
  | BadEpilogue

definition printblock :: "mm_state \<Rightarrow> addr \<Rightarrow> diag list option" where
  "printblock s bp = do {
     hsize \<leftarrow> GET_SIZE s (HDRP bp);
     halloc \<leftarrow> GET_ALLOC s (HDRP bp);
     fp \<leftarrow> FTRP s bp;
     fsize \<leftarrow> GET_SIZE s fp;
     falloc \<leftarrow> GET_ALLOC s fp;
     if hsize = 0 then Some [EOL bp]
     else Some [BlockLine bp hsize (if halloc \<noteq> 0 then CHR ''a'' else CHR ''f'')
                  fsize (if falloc \<noteq> 0 then CHR ''a'' else CHR ''f'')]
   }"

definition checkblock :: "mm_state \<Rightarrow> addr \<Rightarrow> diag list option" where
  "checkblock s bp = do {
     h \<leftarrow> GET s (HDRP bp);
     fp \<leftarrow> FTRP s bp;
     f \<leftarrow> GET s fp;
     Some ((if (word_of_int bp :: uint32) mod 8 \<noteq> 0 then [NotAligned bp] else [])
         @ (if h \<noteq> f then [HeaderFooterMismatch] else []))
   }"

function checkheap_loop :: "mm_state \<Rightarrow> bool \<Rightarrow> addr \<Rightarrow> (diag list \<times> addr) option" where
  "checkheap_loop s verbose bp = do {
     sz \<leftarrow> GET_SIZE s (HDRP bp);
     if sz > 0 then do {
       out1 \<leftarrow> (if verbose then printblock s bp else Some []);
       out2 \<leftarrow> checkblock s bp;
       nb \<leftarrow> NEXT_BLKP s bp;
       (out3, bp') \<leftarrow> checkheap_loop s verbose nb;
       Some (out1 @ out2 @ out3, bp')
     }
     else Some ([], bp)
   }"
  by pat_completeness auto
termination
proof (relation "measure (\<lambda>(s, verbose, bp). nat (mem_brk s + 4 - bp))")
  show "wf (measure (\<lambda>(s, verbose, bp). nat (mem_brk s + 4 - bp)))"
    by simp
next
  fix s :: mm_state and verbose :: bool and bp nb :: addr and sz :: uint32
  assume g: "GET_SIZE s (HDRP bp) = Some sz" and pos: "0 < sz"
    and n: "NEXT_BLKP s bp = Some nb"
  from g have "bp \<le> mem_brk s"
    by (auto simp: GET_SIZE_def GET_def HDRP_def in_heap_def split: if_splits)
  moreover from pos have "0 < uint sz"
    by (simp add: word_less_def)
  moreover from g n have "nb = bp + uint sz"
    by (simp add: NEXT_BLKP_def HDRP_def)
  ultimately show "((s, verbose, nb), (s, verbose, bp))
      \<in> measure (\<lambda>(s, verbose, bp). nat (mem_brk s + 4 - bp))"
    by simp
qed

definition mm_checkheap :: "mm_state \<Rightarrow> bool \<Rightarrow> diag list option" where
  "mm_checkheap s verbose = do {
     let out0 = (if verbose then [HeapLine (heap_listp s)] else []);
     psz \<leftarrow> GET_SIZE s (HDRP (heap_listp s));
     pal \<leftarrow> GET_ALLOC s (HDRP (heap_listp s));
     let out1 = (if (if psz \<noteq> DSIZE then True else pal = 0) then [BadPrologue] else []);
     out2 \<leftarrow> checkblock s (heap_listp s);
     (out3, bp) \<leftarrow> checkheap_loop s verbose (heap_listp s);
     out4 \<leftarrow> (if verbose then printblock s bp else Some []);
     esz \<leftarrow> GET_SIZE s (HDRP bp);
     eal \<leftarrow> GET_ALLOC s (HDRP bp);
     let out5 = (if (if esz \<noteq> 0 then True else eal = 0) then [BadEpilogue] else []);
     Some (out0 @ out1 @ out2 @ out3 @ out4 @ out5)
   }"

section \<open>Vocabulary of the properties\<close>

text \<open>
  A block at \<open>bp\<close> with size \<open>sz\<close> and allocated flag \<open>a\<close>: header and footer hold
  the same tag word, the header decodes to \<open>(sz, a)\<close> and the footer sits where
  \<^verbatim>\<open>FTRP\<close> finds it.
\<close>

definition tagged_block :: "mm_state \<Rightarrow> addr \<Rightarrow> uint32 \<Rightarrow> uint32 \<Rightarrow> bool" where
  "tagged_block s bp sz a \<longleftrightarrow>
     GET s (HDRP bp) = Some (PACK sz a) \<and> GET_SIZE s (HDRP bp) = Some sz \<and>
     GET_ALLOC s (HDRP bp) = Some a \<and> FTRP s bp = Some (bp + uint sz - DSIZE) \<and>
     GET s (bp + uint sz - DSIZE) = Some (PACK sz a)"

text \<open>A word count rounded up to the nearest even number.\<close>

definition round_even :: "int \<Rightarrow> int" where
  "round_even n = (if odd n then n + 1 else n)"

text \<open>Repeated next-block stepping: the block reached after \<open>n\<close> uses of \<^verbatim>\<open>NEXT_BLKP\<close>.\<close>

primrec steps :: "mm_state \<Rightarrow> addr \<Rightarrow> nat \<Rightarrow> addr option" where
  "steps s bp 0 = Some bp"
| "steps s bp (Suc n) = do { nb \<leftarrow> NEXT_BLKP s bp; steps s nb n }"

text \<open>
  What the search sees at a block: a free block that is large enough, a block of
  positive size that does not fit, or a header of size 0 (the epilogue).
\<close>

definition is_fit :: "mm_state \<Rightarrow> uint32 \<Rightarrow> addr \<Rightarrow> bool" where
  "is_fit s asize bp =
     (case (GET_SIZE s (HDRP bp), GET_ALLOC s (HDRP bp)) of
        (Some sz, Some a) \<Rightarrow> 0 < sz \<and> a = 0 \<and> asize \<le> sz
      | _ \<Rightarrow> False)"

definition is_unfit :: "mm_state \<Rightarrow> uint32 \<Rightarrow> addr \<Rightarrow> bool" where
  "is_unfit s asize bp =
     (case (GET_SIZE s (HDRP bp), GET_ALLOC s (HDRP bp)) of
        (Some sz, Some a) \<Rightarrow> 0 < sz \<and> \<not> (a = 0 \<and> asize \<le> sz)
      | _ \<Rightarrow> False)"

definition is_end :: "mm_state \<Rightarrow> addr \<Rightarrow> bool" where
  "is_end s bp = (GET_SIZE s (HDRP bp) = Some 0)"

text \<open>
  \<open>scan s asize bp n b\<close>: stepping \<open>n\<close> times from \<open>bp\<close> reaches \<open>b\<close>, and every block
  passed on the way has positive size and does not fit.
\<close>

definition scan :: "mm_state \<Rightarrow> uint32 \<Rightarrow> addr \<Rightarrow> nat \<Rightarrow> addr \<Rightarrow> bool" where
  "scan s asize bp n b \<longleftrightarrow>
     steps s bp n = Some b \<and> (\<forall>k<n. \<exists>c. steps s bp k = Some c \<and> is_unfit s asize c)"

text \<open>The fields that only \<^verbatim>\<open>mem_sbrk\<close> and \<^verbatim>\<open>mm_init\<close> change.\<close>

definition same_region :: "mm_state \<Rightarrow> mm_state \<Rightarrow> bool" where
  "same_region s s' \<longleftrightarrow> mem_start_brk s' = mem_start_brk s \<and> mem_brk s' = mem_brk s \<and>
     mem_max_addr s' = mem_max_addr s \<and> heap_listp s' = heap_listp s"

subsection \<open>Well-formed heaps\<close>

text \<open>
  The blocks of a heap are listed with their block pointer, their size and whether they
  are allocated. The tag word of a block is its size with the allocation bit.
\<close>

type_synonym blk = "addr \<times> uint32 \<times> bool"

definition tg :: "uint32 \<Rightarrow> bool \<Rightarrow> uint32" where
  "tg sz a = PACK sz (if a then 1 else 0)"

text \<open>
  \<open>chain s bp bs e\<close>: in the memory of \<open>s\<close> the blocks \<open>bs\<close> lie one behind the other from
  \<open>bp\<close> up to \<open>e\<close>; every size is a multiple of 8 and at least 8, and header and footer
  of every block both hold its tag word.
\<close>

fun chain :: "mm_state \<Rightarrow> addr \<Rightarrow> blk list \<Rightarrow> addr \<Rightarrow> bool" where
  "chain s bp [] e \<longleftrightarrow> bp = e"
| "chain s bp ((q, sz, a) # bs) e \<longleftrightarrow>
     q = bp \<and> 8 \<le> uint sz \<and> sz AND 7 = 0 \<and>
     GET s (bp - 4) = Some (tg sz a) \<and> GET s (bp + uint sz - 8) = Some (tg sz a) \<and>
     chain s (bp + uint sz) bs e"

text \<open>No two neighbours in the list are both free.\<close>

fun no_adj_free :: "blk list \<Rightarrow> bool" where
  "no_adj_free [] \<longleftrightarrow> True"
| "no_adj_free [b] \<longleftrightarrow> True"
| "no_adj_free ((q, sz, a) # (q', sz', a') # bs) \<longleftrightarrow> (a \<or> a') \<and> no_adj_free ((q', sz', a') # bs)"

text \<open>
  The heap of \<open>s\<close> is well formed with the blocks \<open>bs\<close>: address 0 lies outside the
  region, the region ends below \<open>2\<^sup>3\<^sup>2\<close>, the prologue block of 8 bytes at \<open>heap_listp\<close>
  is followed by the blocks \<open>bs\<close> up to the break, the word in front of the break is the
  epilogue header, no two neighbours are both free, and the cursor is the block pointer
  of the prologue, of one of the blocks, or of the epilogue.
\<close>

definition heap_inv :: "mm_state \<Rightarrow> blk list \<Rightarrow> bool" where
  "heap_inv s bs \<longleftrightarrow>
     0 < mem_start_brk s \<and> mem_brk s \<le> mem_max_addr s \<and> mem_max_addr s < 2 ^ 32 \<and>
     mem_start_brk s + 8 \<le> heap_listp s \<and>
     chain s (heap_listp s) ((heap_listp s, 8, True) # bs) (mem_brk s) \<and>
     GET s (mem_brk s - 4) = Some (PACK 0 1) \<and>
     no_adj_free bs \<and>
     next_fit_ptr s \<in> insert (mem_brk s) (insert (heap_listp s) (fst ` set bs))"

text \<open>The first free block of the list that is large enough, as the search loop finds it.\<close>

fun first_fit :: "uint32 \<Rightarrow> blk list \<Rightarrow> addr option" where
  "first_fit asize [] = None"
| "first_fit asize ((q, sz, a) # bs) =
     (if \<not> a \<and> asize \<le> sz then Some q else first_fit asize bs)"



text \<open>The state in which \<^verbatim>\<open>mm_free\<close> calls \<^verbatim>\<open>coalesce\<close>: the block is marked free.\<close>

definition free_marked :: "mm_state \<Rightarrow> addr \<Rightarrow> mm_state option" where
  "free_marked s bp = do {
     sz \<leftarrow> GET_SIZE s (HDRP bp);
     s1 \<leftarrow> PUT s (HDRP bp) (PACK sz 0);
     fp \<leftarrow> FTRP s1 bp;
     PUT s1 fp (PACK sz 0)
   }"

subsection \<open>A concrete heap\<close>

text \<open>
  An empty memory source of 20 MB of zeroed memory starting at address 4096, and the
  heap that \<^verbatim>\<open>mm_init\<close> builds in it: the padding word at 4096, the prologue block at
  4104, one free block of 65536 bytes at 4112 and the epilogue header at 69644.
\<close>

definition boot :: mm_state where
  "boot = \<lparr>mem = (\<lambda>_. 0), mem_start_brk = 4096, mem_brk = 4096,
     mem_max_addr = 4096 + 20 * 1048576, heap_listp = 0, next_fit_ptr = 0\<rparr>"

definition heap0 :: mm_state where
  "heap0 = fst (the (mm_init boot))"




text \<open>
  The heap \<open>heap0\<close> after three calls of \<^verbatim>\<open>mm_malloc(8)\<close>, with allocated blocks of 16 bytes
  at 4112, 4128 and 4144 and the cursor at 4160; and two states in which \<^verbatim>\<open>mm_free(4128)\<close>
  calls \<^verbatim>\<open>coalesce\<close>: in that heap, where both neighbours are allocated, and after
  \<^verbatim>\<open>mm_free(4112)\<close> and \<^verbatim>\<open>mm_free(4144)\<close>, where both neighbours are free.
\<close>

definition heap_abc :: mm_state where
  "heap_abc = the (do {
     (s0, _) \<leftarrow> mm_init boot;
     (s1, a) \<leftarrow> mm_malloc s0 8;
     (s2, b) \<leftarrow> mm_malloc s1 8;
     (s3, c) \<leftarrow> mm_malloc s2 8;
     Some s3
   })"

definition marked_alloc_nbrs :: mm_state where
  "marked_alloc_nbrs = the (free_marked heap_abc 4128)"

definition marked_free_nbrs :: mm_state where
  "marked_free_nbrs = the (do {
     s4 \<leftarrow> mm_free heap_abc 4112;
     s5 \<leftarrow> mm_free s4 4144;
     free_marked s5 4128
   })"

section \<open>Memory and tag words\<close>

lemma load32_store32_same: "load32 (store32 m p v) p = v"
  unfolding load32_def store32_def
  apply simp
  apply (rule bit_word_eqI)
  subgoal for n
    apply (cases "n < 8"; cases "n < 16"; cases "n < 24")
    apply (auto simp add: bit_simps)
    done
  done

lemma load32_store32_other:
  "q + 4 \<le> p \<or> p + 4 \<le> q \<Longrightarrow> load32 (store32 m p v) q = load32 m q"
  unfolding load32_def store32_def by auto

lemma store32_apply_other: "a < p \<or> p + 4 \<le> a \<Longrightarrow> store32 m p v a = m a"
  unfolding store32_def by auto

lemma low3_iff_dvd: "(w :: uint32) AND 7 = 0 \<longleftrightarrow> 8 dvd uint w"
  using and_mask_dvd [of 3 w] by (simp add: mask_eq_exp_minus_1)

lemma size_bits_low3: "((w :: uint32) AND - 8) AND 7 = 0"
  by (simp add: word_bw_assocs)

lemma PACK_free: "PACK sz 0 = sz"
  by (simp add: PACK_def)


lemma seven_mask: "(7 :: uint32) = mask 3"
  by (simp add: mask_eq_exp_minus_1)

lemma low3_bit: "(w :: uint32) AND 7 = 0 \<longleftrightarrow> (\<forall>n<3. \<not> bit w n)"
proof
  assume "w AND 7 = 0"
  then have a: "\<not> bit (w AND mask 3) n" for n
    by (simp add: seven_mask)
  show "\<forall>n<3. \<not> bit w n"
  proof (intro allI impI)
    fix n :: nat
    assume "n < 3"
    with a [of n] show "\<not> bit w n"
      by (simp add: bit_and_iff bit_mask_iff)
  qed
next
  assume "\<forall>n<3. \<not> bit w n"
  then have "w AND mask 3 = 0"
    by (auto intro!: bit_word_eqI simp add: bit_simps)
  then show "w AND 7 = 0"
    by (simp add: seven_mask)
qed

lemma PACK_size_1: "sz AND 7 = 0 \<Longrightarrow> PACK sz 1 AND - 8 = sz"
proof -
  assume "sz AND 7 = 0"
  then have "PACK sz 1 AND NOT (mask 3) = sz"
    unfolding PACK_def low3_bit
    by (auto intro!: bit_word_eqI simp add: bit_simps)
  then show ?thesis
    by (simp add: mask_eq_exp_minus_1)
qed

lemma PACK_alloc_1: "sz AND 7 = 0 \<Longrightarrow> PACK sz 1 AND 1 = 1"
  unfolding PACK_def low3_bit
  by (auto intro!: bit_word_eqI simp add: bit_simps)

lemma PACK_size_0: "sz AND 7 = 0 \<Longrightarrow> PACK sz 0 AND - 8 = sz"
proof -
  assume "sz AND 7 = 0"
  then have "PACK sz 0 AND NOT (mask 3) = sz"
    unfolding PACK_def low3_bit
    by (auto intro!: bit_word_eqI simp add: bit_simps)
  then show ?thesis
    by (simp add: mask_eq_exp_minus_1)
qed

lemma PACK_alloc_0: "sz AND 7 = 0 \<Longrightarrow> PACK sz 0 AND 1 = 0"
  unfolding PACK_def low3_bit
  by (auto intro!: bit_word_eqI simp add: bit_simps)

lemma aligned_ge8: "(w::uint32) AND 7 = 0 \<Longrightarrow> 0 < w \<Longrightarrow> 8 \<le> uint w"
  by (metis low3_iff_dvd unsigned_0 word_less_iff_unsigned zdvd_imp_le)

lemma aligned_sub: "(a::uint32) AND 7 = 0 \<Longrightarrow> b AND 7 = 0 \<Longrightarrow> (a - b) AND 7 = 0"
proof -
  assume "a AND 7 = 0" "b AND 7 = 0"
  then have "8 dvd uint a - uint b"
    by (simp add: low3_iff_dvd)
  moreover have "uint (a - b) = (uint a - uint b) mod 2 ^ 32"
    by (simp add: uint_word_ariths)
  moreover have "(8::int) dvd 2 ^ 32"
    by simp
  ultimately have "8 dvd uint (a - b)"
    by (simp add: dvd_mod_iff)
  then show ?thesis
    by (simp add: low3_iff_dvd)
qed

lemma aligned_add: "(a::uint32) AND 7 = 0 \<Longrightarrow> b AND 7 = 0 \<Longrightarrow> (a + b) AND 7 = 0"
proof -
  assume "a AND 7 = 0" "b AND 7 = 0"
  then have "8 dvd uint a + uint b"
    by (simp add: low3_iff_dvd)
  moreover have "uint (a + b) = (uint a + uint b) mod 2 ^ 32"
    by (simp add: uint_word_ariths)
  moreover have "(8::int) dvd 2 ^ 32"
    by simp
  ultimately have "8 dvd uint (a + b)"
    by (simp add: dvd_mod_iff)
  then show ?thesis
    by (simp add: low3_iff_dvd)
qed

lemma GET_mem_upd: "GET (s\<lparr>mem := m\<rparr>) p = (if in_heap s p 4 then Some (load32 m p) else None)"
  by (simp add: GET_def in_heap_def)

lemma in_heap_mem_upd: "in_heap (s\<lparr>mem := m\<rparr>) p n = in_heap s p n"
  by (simp add: in_heap_def)

lemma PUT_Some: "in_heap s p 4 \<Longrightarrow> PUT s p v = Some (s\<lparr>mem := store32 (mem s) p v\<rparr>)"
  by (simp add: PUT_def)

lemma uint_sub_le: "(b::uint32) \<le> a \<Longrightarrow> uint (a - b) = uint a - uint b"
  by (simp add: uint_minus_simple_alt)

lemmas mm_simps = FTRP_def NEXT_BLKP_def PREV_BLKP_def GET_SIZE_def GET_ALLOC_def HDRP_def PUT_Some
          GET_mem_upd in_heap_mem_upd PACK_size_1 PACK_alloc_1 PACK_size_0 PACK_alloc_0
          load32_store32_same load32_store32_other size_bits_low3

lemma PUT_frame:
  "PUT s p v = Some s' \<Longrightarrow> mem_start_brk s' = mem_start_brk s \<and> mem_brk s' = mem_brk s \<and>
     mem_max_addr s' = mem_max_addr s \<and> heap_listp s' = heap_listp s \<and> next_fit_ptr s' = next_fit_ptr s"
  by (auto simp: PUT_def split: if_splits)

lemma extend_size:
  assumes "uint words \<le> 2 ^ 30 - 2"
  shows "uint (if words mod 2 \<noteq> 0 then (words + 1) * WSIZE else words * WSIZE :: uint32)
     = 4 * round_even (uint words)"
proof -
  have o: "words mod 2 \<noteq> 0 \<longleftrightarrow> odd (uint words)"
  proof -
    have "words mod 2 = 0 \<longleftrightarrow> uint (words mod 2) = 0"
      by (simp add: uint_0_iff)
    also have "\<dots> \<longleftrightarrow> uint words mod 2 = 0"
      by (simp add: uint_mod)
    finally show ?thesis
      by presburger
  qed
  have 1: "uint ((words + 1) * 4) = (uint words + 1) * 4" if "odd (uint words)"
    using assms by (simp add: uint_word_ariths mod_pos_pos_trivial)
  have 2: "uint (words * 4) = uint words * 4"
    using assms by (simp add: uint_word_ariths mod_pos_pos_trivial)
  show ?thesis
  proof (cases "words mod 2 = 0")
    case True
    with o have "even (uint words)"
      by simp
    with True 2 show ?thesis
      by (simp add: round_even_def)
  next
    case False
    with o have "odd (uint words)"
      by simp
    with False 1 show ?thesis
      by (simp only: round_even_def if_True if_False not_False_eq_True)
  qed
qed

lemma extend_heap_formats:
  assumes words: "0 < words" "uint words \<le> 2 ^ 30 - 2"
    and room: "0 < mem_start_brk s" "mem_start_brk s + 4 \<le> mem_brk s"
  shows "if mem_brk s + 4 * round_even (uint words) > mem_max_addr s
         then extend_heap s words = Some (s, NULL)
         else \<exists>s3. extend_heap s words = coalesce s3 (mem_brk s) \<and>
                mem_brk s3 = mem_brk s + 4 * round_even (uint words) \<and>
                tagged_block s3 (mem_brk s) (word_of_int (4 * round_even (uint words))) 0 \<and>
                NEXT_BLKP s3 (mem_brk s) = Some (mem_brk s + 4 * round_even (uint words)) \<and>
                GET s3 (HDRP (mem_brk s + 4 * round_even (uint words))) = Some (PACK 0 1)"
proof -
  define sz :: uint32 where "sz = (if words mod 2 \<noteq> 0 then (words + 1) * WSIZE else words * WSIZE)"
  have usz: "uint sz = 4 * round_even (uint words)"
    unfolding sz_def using words(2) by (rule extend_size)
  then have szw: "word_of_int (4 * round_even (uint words)) = sz"
    by (metis word_of_int_uint)
  have "0 < uint words"
    using words(1) by (simp add: word_less_def)
  then have ge: "8 \<le> uint sz"
    unfolding usz round_even_def by (auto elim: oddE evenE)
  have "8 dvd uint sz"
    unfolding usz round_even_def by (auto elim!: oddE evenE)
  then have al: "sz AND 7 = 0"
    by (simp add: low3_iff_dvd)
  have eq: "extend_heap s words =
     (case mem_sbrk s (uint sz) of (s0, bp) \<Rightarrow>
        if bp = - 1 then Some (s0, NULL)
        else do {
          s1 \<leftarrow> PUT s0 (HDRP bp) (PACK sz 0);
          fp \<leftarrow> FTRP s1 bp;
          s2 \<leftarrow> PUT s1 fp (PACK sz 0);
          nb \<leftarrow> NEXT_BLKP s2 bp;
          s3 \<leftarrow> PUT s2 (HDRP nb) (PACK 0 1);
          coalesce s3 bp
        })"
    unfolding extend_heap_def sz_def Let_def ..
  show ?thesis
    unfolding szw usz [symmetric] eq
    using ge room al
    apply (simp add: mem_sbrk_def tagged_block_def)
    apply (simp add: mm_simps in_heap_def)
    apply (intro impI exI conjI, rule refl)
    apply (simp_all add: mm_simps in_heap_def)
    done
qed

section \<open>The search loop\<close>

declare find_fit_loop.simps [simp del]

lemma find_fit_loop_fit: "is_fit s asize bp \<Longrightarrow> find_fit_loop s asize bp = Some (Some bp)"
  by (subst find_fit_loop.simps) (auto simp: is_fit_def split: option.splits)

lemma find_fit_loop_end: "is_end s bp \<Longrightarrow> find_fit_loop s asize bp = Some None"
  by (subst find_fit_loop.simps) (auto simp: is_end_def split: option.splits)

lemma find_fit_loop_unfit:
  "is_unfit s asize bp \<Longrightarrow> find_fit_loop s asize bp = NEXT_BLKP s bp \<bind> find_fit_loop s asize"
  by (subst find_fit_loop.simps) (auto simp: is_unfit_def split: option.splits)

lemma find_fit_loop_cases:
  "find_fit_loop s asize bp = Some r \<Longrightarrow>
     (is_fit s asize bp \<and> r = Some bp) \<or> (is_end s bp \<and> r = None) \<or>
     (is_unfit s asize bp \<and> (\<exists>nb. NEXT_BLKP s bp = Some nb \<and> find_fit_loop s asize nb = Some r))"
  by (subst (asm) find_fit_loop.simps)
     (auto simp: is_fit_def is_end_def is_unfit_def word_gt_0 split: bind_splits if_splits)

lemma scan_0: "scan s asize bp 0 b \<longleftrightarrow> b = bp"
  by (auto simp: scan_def)

lemma scan_Suc:
  "scan s asize bp (Suc n) b \<longleftrightarrow>
     is_unfit s asize bp \<and> (\<exists>nb. NEXT_BLKP s bp = Some nb \<and> scan s asize nb n b)"
proof
  assume a: "scan s asize bp (Suc n) b"
  then obtain nb where nb: "NEXT_BLKP s bp = Some nb" "steps s nb n = Some b"
    by (auto simp: scan_def split: bind_splits)
  from a have "is_unfit s asize bp"
    unfolding scan_def by (metis steps.simps(1) option.inject zero_less_Suc)
  moreover have "\<exists>c. steps s nb k = Some c \<and> is_unfit s asize c" if "k < n" for k
    using a that nb(1) unfolding scan_def
    by (metis Suc_mono steps.simps(2) bind.bind_lunit)
  ultimately show "is_unfit s asize bp \<and> (\<exists>nb. NEXT_BLKP s bp = Some nb \<and> scan s asize nb n b)"
    using nb by (auto simp: scan_def)
next
  assume "is_unfit s asize bp \<and> (\<exists>nb. NEXT_BLKP s bp = Some nb \<and> scan s asize nb n b)"
  then obtain nb where u: "is_unfit s asize bp" and nb: "NEXT_BLKP s bp = Some nb"
    and sc: "scan s asize nb n b"
    by blast
  have "\<exists>c. steps s bp k = Some c \<and> is_unfit s asize c" if "k < Suc n" for k
  proof (cases k)
    case 0
    with u show ?thesis by simp
  next
    case (Suc j)
    with that sc nb show ?thesis
      by (auto simp: scan_def)
  qed
  with nb sc show "scan s asize bp (Suc n) b"
    by (auto simp: scan_def)
qed

lemma find_fit_loop_sound:
  "find_fit_loop s asize bp = Some r \<Longrightarrow>
     \<exists>n b. scan s asize bp n b \<and>
       (case r of Some x \<Rightarrow> x = b \<and> is_fit s asize b | None \<Rightarrow> is_end s b)"
proof (induction s asize bp rule: find_fit_loop.induct)
  case (1 s asize bp)
  from find_fit_loop_cases [OF "1.prems"]
  consider "is_fit s asize bp" "r = Some bp" | "is_end s bp" "r = None"
    | nb where "is_unfit s asize bp" "NEXT_BLKP s bp = Some nb" "find_fit_loop s asize nb = Some r"
    by blast
  then show ?case
  proof cases
    case 1
    then show ?thesis
      by (intro exI [of _ 0] exI [of _ bp]) (simp add: scan_0)
  next
    case 2
    then show ?thesis
      by (intro exI [of _ 0] exI [of _ bp]) (simp add: scan_0)
  next
    case 3
    from 3(1) obtain sz a where g: "GET_SIZE s (HDRP bp) = Some sz" "0 < sz"
      "GET_ALLOC s (HDRP bp) = Some a" "\<not> (a = 0 \<and> asize \<le> sz)"
      by (auto simp: is_unfit_def split: option.splits)
    from "1.IH" [OF g(1) g(2) g(3) g(4) 3(2) 3(3)]
    obtain n b where "scan s asize nb n b"
      "case r of Some x \<Rightarrow> x = b \<and> is_fit s asize b | None \<Rightarrow> is_end s b"
      by blast
    with 3 show ?thesis
      by (intro exI [of _ "Suc n"] exI [of _ b]) (simp add: scan_Suc)
  qed
qed

lemma find_fit_loop_complete:
  "scan s asize bp n b \<Longrightarrow> is_fit s asize b \<Longrightarrow> find_fit_loop s asize bp = Some (Some b)"
  "scan s asize bp n b \<Longrightarrow> is_end s b \<Longrightarrow> find_fit_loop s asize bp = Some None"
  by (induction n arbitrary: bp)
     (auto simp: scan_0 scan_Suc find_fit_loop_fit find_fit_loop_end find_fit_loop_unfit)

section \<open>Frames\<close>

lemma same_region_refl [simp]: "same_region s s"
  by (simp add: same_region_def)

lemma same_region_trans: "same_region s s' \<Longrightarrow> same_region s' s'' \<Longrightarrow> same_region s s''"
  by (simp add: same_region_def)

lemma same_region_cursor [simp]: "same_region s (s'\<lparr>next_fit_ptr := p\<rparr>) = same_region s s'"
  by (simp add: same_region_def)

lemma PUT_same_region: "PUT s p v = Some s' \<Longrightarrow> same_region s s'"
  by (auto simp: PUT_def same_region_def split: if_splits)

lemma coalesce_same_region: "coalesce s bp = Some (s', r) \<Longrightarrow> same_region s s'"
  unfolding coalesce_def
  by (auto split: bind_splits if_splits simp: Let_def
        dest!: PUT_same_region intro: same_region_trans)

lemma place_same_region: "place s bp asize = Some s' \<Longrightarrow> same_region s s'"
  unfolding place_def
  by (auto split: bind_splits if_splits dest!: PUT_same_region intro: same_region_trans)

lemma find_fit_same_region: "find_fit s asize = Some (s', r) \<Longrightarrow> same_region s s'"
  unfolding find_fit_def
  by (auto split: option.splits)

lemma adjust_size_aligned: "adjust_size sz AND 7 = 0"
proof -
  have "8 dvd uint (8 * x :: uint32)" for x
  proof -
    have "uint (8 * x) = (8 * uint x) mod 2 ^ 32"
      by (simp add: uint_word_ariths)
    moreover have "(8::int) dvd 2 ^ 32"
      by simp
    ultimately show ?thesis
      by (simp add: dvd_mod_iff)
  qed
  then have "(8 * x :: uint32) AND 7 = 0" for x
    by (simp add: low3_iff_dvd)
  then show ?thesis
    by (simp add: adjust_size_def)
qed

lemma MAX_u32_chunk:
  assumes "a AND 7 = 0"
  shows "MAX_u32 a CHUNKSIZE AND 7 = 0" "65536 \<le> uint (MAX_u32 a CHUNKSIZE)"
  using assms by (auto simp: MAX_u32_def word_less_def)

lemma div4_words:
  fixes m :: uint32
  assumes al: "m AND 7 = 0" and big: "65536 \<le> uint m"
  shows "0 < m div 4" "uint (m div 4) \<le> 2 ^ 30 - 2" "4 * round_even (uint (m div 4)) = uint m"
proof -
  from al obtain k where k: "uint m = 8 * k"
    by (auto simp: low3_iff_dvd)
  have lt: "uint m < 2 ^ 32"
    using uint_lt2p [of m] by simp
  have d: "uint (m div 4) = uint m div 4"
    by (simp add: uint_div)
  from k big d show "0 < m div 4"
    by (simp add: word_less_def)
  from k lt d show "uint (m div 4) \<le> 2 ^ 30 - 2"
    by simp
  from k d show "4 * round_even (uint (m div 4)) = uint m"
    by (simp add: round_even_def)
qed

lemma mm_malloc_extension_request:
  assumes nz: "sz \<noteq> 0"
    and room: "0 < mem_start_brk s" "mem_start_brk s + 4 \<le> mem_brk s"
    and nofit: "find_fit s (adjust_size sz) = Some (s1, NULL)"
    and res: "mm_malloc s sz = Some (s', p)"
  shows "if mem_brk s + uint (MAX_u32 (adjust_size sz) CHUNKSIZE) > mem_max_addr s
         then p = NULL \<and> mem_brk s' = mem_brk s
         else mem_brk s' = mem_brk s + uint (MAX_u32 (adjust_size sz) CHUNKSIZE)"
proof -
  let ?m = "MAX_u32 (adjust_size sz) CHUNKSIZE"
  note w = div4_words [OF MAX_u32_chunk [OF adjust_size_aligned [of sz]]]
  from nofit have r1: "same_region s s1"
    by (rule find_fit_same_region)
  then have room1: "0 < mem_start_brk s1" "mem_start_brk s1 + 4 \<le> mem_brk s1"
    using room by (simp_all add: same_region_def)
  from res nz nofit consider
      s2 where "extend_heap s1 (?m div 4) = Some (s2, NULL)" "s' = s2" "p = NULL"
    | s2 s3 nb where "extend_heap s1 (?m div 4) = Some (s2, p)" "p \<noteq> NULL"
        "place s2 p (adjust_size sz) = Some s3" "s' = s3\<lparr>next_fit_ptr := nb\<rparr>"
    by (auto simp: mm_malloc_def Let_def split: bind_splits if_splits)
  then obtain s2 bp where ext: "extend_heap s1 (?m div 4) = Some (s2, bp)"
    and r3: "same_region s2 s'" and fin: "bp = NULL \<longrightarrow> p = NULL"
  proof cases
    case 1
    then show ?thesis
      using that [of s2 NULL] by simp
  next
    case 2
    from 2(3) have "same_region s2 s3"
      by (rule place_same_region)
    with 2 show ?thesis
      using that [of s2 p] by simp
  qed
  note fmt = extend_heap_formats [OF w(1) w(2) room1, unfolded w(3)]
  show ?thesis
  proof (cases "mem_brk s + uint ?m > mem_max_addr s")
    case True
    with fmt r1 have "extend_heap s1 (?m div 4) = Some (s1, NULL)"
      by (simp add: same_region_def)
    with ext fin r1 r3 True show ?thesis
      by (auto simp: same_region_def)
  next
    case False
    with fmt r1 obtain s3 where "extend_heap s1 (?m div 4) = coalesce s3 (mem_brk s1)"
      "mem_brk s3 = mem_brk s1 + uint ?m"
      by (auto simp: same_region_def)
    with ext have "same_region s3 s2" "mem_brk s3 = mem_brk s1 + uint ?m"
      by (auto dest: coalesce_same_region)
    with r1 r3 False show ?thesis
      by (auto simp: same_region_def)
  qed
qed

section \<open>What the operations compute\<close>

text \<open>
  The cursor after \<^verbatim>\<open>coalesce\<close>, the number of bytes \<^verbatim>\<open>mm_realloc\<close> copies, and the
  adjusted size of requests that do not overflow.
\<close>

lemma coalesce_cursor:
  assumes "coalesce s bp = Some (s', r)"
  shows "\<exists>pb pf prev_alloc nb next_alloc.
           PREV_BLKP s bp = Some pb \<and> FTRP s pb = Some pf \<and> GET_ALLOC s pf = Some prev_alloc \<and>
           NEXT_BLKP s bp = Some nb \<and> GET_ALLOC s (HDRP nb) = Some next_alloc \<and>
           (if prev_alloc \<noteq> 0 \<and> next_alloc \<noteq> 0 then s' = s \<and> r = bp
            else next_fit_ptr s' = r)"
proof -
  from assms obtain pb where 1: "PREV_BLKP s bp = Some pb"
    by (cases "PREV_BLKP s bp") (simp_all add: coalesce_def)
  from assms 1 obtain pf where 2: "FTRP s pb = Some pf"
    by (cases "FTRP s pb") (simp_all add: coalesce_def)
  from assms 1 2 obtain prev_alloc where 3: "GET_ALLOC s pf = Some prev_alloc"
    by (cases "GET_ALLOC s pf") (simp_all add: coalesce_def)
  from assms 1 2 3 obtain nb where 4: "NEXT_BLKP s bp = Some nb"
    by (cases "NEXT_BLKP s bp") (simp_all add: coalesce_def)
  from assms 1 2 3 4 obtain next_alloc where 5: "GET_ALLOC s (HDRP nb) = Some next_alloc"
    by (cases "GET_ALLOC s (HDRP nb)") (simp_all add: coalesce_def)
  from assms 1 2 3 4 5 obtain sz where 6: "GET_SIZE s (HDRP bp) = Some sz"
    by (cases "GET_SIZE s (HDRP bp)") (simp_all add: coalesce_def)
  consider (c1) "prev_alloc \<noteq> 0" "next_alloc \<noteq> 0" | (c2) "prev_alloc \<noteq> 0" "next_alloc = 0"
    | (c3) "prev_alloc = 0" "next_alloc \<noteq> 0" | (c4) "prev_alloc = 0" "next_alloc = 0"
    by blast
  then have "if prev_alloc \<noteq> 0 \<and> next_alloc \<noteq> 0 then s' = s \<and> r = bp
        else next_fit_ptr s' = r"
  proof cases
    case c1
    with assms 1 2 3 4 5 6 show ?thesis
      by (simp add: coalesce_def)
  next
    case c2
    with assms 1 2 3 4 5 6 show ?thesis
      by (auto simp: coalesce_def Let_def split: bind_splits)
  next
    case c3
    with assms 1 2 3 4 5 6 show ?thesis
      by (auto simp: coalesce_def Let_def split: bind_splits)
  next
    case c4
    with assms 1 2 3 4 5 6 show ?thesis
      by (auto simp: coalesce_def Let_def split: bind_splits)
  qed
  with 1 2 3 4 5 show ?thesis
    by blast
qed

lemma mm_realloc_copy_size:
  assumes "mm_realloc s ptr sz = Some (Returned s3 newp)"
  shows "\<exists>s1 bsize s2. mm_malloc s sz = Some (s1, newp) \<and> newp \<noteq> NULL \<and>
           GET_SIZE s1 (HDRP ptr) = Some bsize \<and>
           memcpy s1 newp ptr (if sz < bsize then sz else bsize) = Some s2 \<and>
           mm_free s2 ptr = Some s3"
proof -
  from assms obtain s1 where m: "mm_malloc s sz = Some (s1, newp)"
    by (auto simp: mm_realloc_def split: bind_splits if_splits)
  with assms have nn: "newp \<noteq> NULL"
    by (auto simp: mm_realloc_def split: bind_splits if_splits)
  with assms m obtain bsize where b: "GET_SIZE s1 (HDRP ptr) = Some bsize"
    by (auto simp: mm_realloc_def split: bind_splits if_splits)
  with assms m nn obtain s2 where
    "memcpy s1 newp ptr (if sz < bsize then sz else bsize) = Some s2" "mm_free s2 ptr = Some s3"
    by (auto simp: mm_realloc_def Let_def split: bind_splits)
  with m nn b show ?thesis
    by blast
qed


section \<open>Chains of blocks\<close>

lemma tg_size: "sz AND 7 = 0 \<Longrightarrow> tg sz a AND - 8 = sz"
  by (simp add: tg_def PACK_size_1 PACK_size_0)

lemma tg_alloc: "sz AND 7 = 0 \<Longrightarrow> tg sz a AND 1 = (if a then 1 else 0)"
  by (simp add: tg_def PACK_alloc_1 PACK_alloc_0)

lemma chain_le: "chain s bp bs e \<Longrightarrow> bp \<le> e"
  by (induction bs arbitrary: bp) (auto, force)

lemma chain_append:
  "chain s bp (xs @ ys) e \<longleftrightarrow> (\<exists>m. chain s bp xs m \<and> chain s m ys e)"
  by (induction xs arbitrary: bp) auto

lemma chain_bounds:
  "chain s bp bs e \<Longrightarrow> (q, sz, a) \<in> set bs \<Longrightarrow> bp \<le> q \<and> q + uint sz \<le> e"
proof (induction bs arbitrary: bp)
  case Nil
  then show ?case by simp
next
  case (Cons b bs)
  obtain q' sz' a' where b: "b = (q', sz', a')"
    by (cases b)
  from Cons.prems(1) b have c: "chain s (bp + uint sz') bs e" "q' = bp" "8 \<le> uint sz'"
    by simp_all
  show ?case
  proof (cases "(q, sz, a) = b")
    case True
    with b c chain_le [OF c(1)] show ?thesis
      by simp
  next
    case False
    with Cons.prems(2) have "(q, sz, a) \<in> set bs"
      by simp
    from Cons.IH [OF c(1) this] c show ?thesis
      by simp
  qed
qed

text \<open>
  A chain depends only on the start of the region and on the memory between its first
  header and its end.
\<close>

lemma chain_frame:
  assumes "chain s bp bs e"
    and "mem_start_brk s' = mem_start_brk s" and "mem_brk s \<le> mem_brk s'"
    and "\<And>a. bp - 4 \<le> a \<Longrightarrow> a < e - 4 \<Longrightarrow> mem s' a = mem s a"
  shows "chain s' bp bs e"
  using assms(1,4)
proof (induction bs arbitrary: bp)
  case Nil
  then show ?case by simp
next
  case (Cons b bs)
  obtain q sz a where b: "b = (q, sz, a)"
    by (cases b)
  from Cons.prems(1) b have c: "chain s (bp + uint sz) bs e" "q = bp" "8 \<le> uint sz"
    "sz AND 7 = 0" "GET s (bp - 4) = Some (tg sz a)" "GET s (bp + uint sz - 8) = Some (tg sz a)"
    by simp_all
  note le = chain_le [OF c(1)]
  have "chain s' (bp + uint sz) bs e"
    using c(1) Cons.prems(2) c(3) by (intro Cons.IH) auto
  moreover have "GET s' (bp - 4) = Some (tg sz a)"
    using c(5) c(3) le assms(2,3) Cons.prems(2)
    by (auto simp: GET_def in_heap_def load32_def split: if_splits)
  moreover have "GET s' (bp + uint sz - 8) = Some (tg sz a)"
    using c(6) c(3) le assms(2,3) Cons.prems(2)
    by (auto simp: GET_def in_heap_def load32_def split: if_splits)
  ultimately show ?case
    using b c by simp
qed

text \<open>
  On a chain that ends at the epilogue header the search loop returns the first fit of
  the list.
\<close>

lemma find_fit_loop_chain:
  "chain s bp bs e \<Longrightarrow> GET s (e - 4) = Some (PACK 0 1) \<Longrightarrow>
     find_fit_loop s asize bp = Some (first_fit asize bs)"
proof (induction bs arbitrary: bp)
  case Nil
  then show ?case
    by (subst find_fit_loop.simps) (simp add: GET_SIZE_def HDRP_def PACK_def)
next
  case (Cons b bs)
  obtain q sz a where b: "b = (q, sz, a)"
    by (cases b)
  from Cons.prems(1) b have c: "chain s (bp + uint sz) bs e" "q = bp" "8 \<le> uint sz"
    "sz AND 7 = 0" "GET s (bp - 4) = Some (tg sz a)"
    by simp_all
  from c(3) have pos: "0 < sz"
    by (auto simp: word_less_def)
  from Cons.IH [OF c(1) Cons.prems(2)] c pos b show ?case
    by (subst find_fit_loop.simps)
       (auto simp: GET_SIZE_def GET_ALLOC_def HDRP_def NEXT_BLKP_def tg_size tg_alloc)
qed




section \<open>Coalescing in a chain\<close>

text \<open>The four cases of \<^verbatim>\<open>coalesce\<close> on the tag words, then on a chain of blocks.\<close>

lemma uint_add_small: "uint (a :: uint32) + uint b < 2 ^ 32 \<Longrightarrow> uint (a + b) = uint a + uint b"
  by (simp add: uint_word_ariths mod_pos_pos_trivial)

lemma GET_cursor_upd [simp]: "GET (s\<lparr>next_fit_ptr := b\<rparr>) p = GET s p"
  by (simp add: GET_def in_heap_def)

lemma GET_SomeD: "GET s p = Some v \<Longrightarrow> load32 (mem s) p = v \<and> in_heap s p 4"
  by (auto simp: GET_def split: if_splits)

lemma coalesce_c1:
  assumes "GET s (bp - 8) = Some (tg psz True)" "GET s (bp - uint psz - 4) = Some (tg psz True)"
    and "GET s (bp - 4) = Some (tg sz False)" "GET s (bp + uint sz - 4) = Some w" "w AND 1 = 1"
    and "psz AND 7 = 0" "sz AND 7 = 0"
  shows "coalesce s bp = Some (s, bp)"
  using assms
  by (simp add: coalesce_def mm_simps tg_size tg_alloc)

lemma coalesce_c2:
  assumes "GET s (bp - 8) = Some (tg psz True)" "GET s (bp - uint psz - 4) = Some (tg psz True)"
    and "GET s (bp - 4) = Some (tg sz False)"
    and "GET s (bp + uint sz - 4) = Some (tg nsz False)"
    and "psz AND 7 = 0" "sz AND 7 = 0" "nsz AND 7 = 0" "8 \<le> uint sz" "8 \<le> uint nsz"
    and "uint sz + uint nsz < 2 ^ 32"
    and "mem_start_brk s \<le> bp - 4" "bp + uint sz + uint nsz - 4 \<le> mem_brk s"
  shows "\<exists>s'. coalesce s bp = Some (s', bp) \<and> same_region s s' \<and> next_fit_ptr s' = bp \<and>
           (\<forall>a. a < bp - 4 \<or> bp + uint sz + uint nsz - 4 \<le> a \<longrightarrow> mem s' a = mem s a) \<and>
           (\<forall>a. bp \<le> a \<and> a < bp + uint sz + uint nsz - 8 \<longrightarrow> mem s' a = mem s a) \<and>
           GET s' (bp - 4) = Some (tg (sz + nsz) False) \<and>
           GET s' (bp + uint sz + uint nsz - 8) = Some (tg (sz + nsz) False) \<and>
           uint (sz + nsz) = uint sz + uint nsz \<and> (sz + nsz) AND 7 = 0"
proof -
  have u: "uint (sz + nsz) = uint sz + uint nsz"
    using assms(10) by (rule uint_add_small)
  have al: "(sz + nsz) AND 7 = 0"
    using assms(6,7) by (rule aligned_add)
  note raw = assms(1-4) [THEN GET_SomeD]
  show ?thesis
    using assms u al raw
    apply (simp add: coalesce_def tg_size tg_alloc GET_SIZE_def GET_ALLOC_def HDRP_def
        PREV_BLKP_def NEXT_BLKP_def FTRP_def Let_def)
    apply (simp add: tg_def same_region_def mm_simps in_heap_def store32_apply_other al add.assoc)
    done
qed

lemma coalesce_c3:
  assumes "GET s (bp - 8) = Some (tg psz False)" "GET s (bp - uint psz - 4) = Some (tg psz False)"
    and "GET s (bp - 4) = Some (tg sz False)" "GET s (bp + uint sz - 4) = Some w" "w AND 1 = 1"
    and "psz AND 7 = 0" "sz AND 7 = 0" "8 \<le> uint sz" "8 \<le> uint psz"
    and "uint sz + uint psz < 2 ^ 32"
    and "mem_start_brk s \<le> bp - uint psz - 4" "bp + uint sz - 4 \<le> mem_brk s"
  shows "\<exists>s'. coalesce s bp = Some (s', bp - uint psz) \<and> same_region s s' \<and>
           next_fit_ptr s' = bp - uint psz \<and>
           (\<forall>a. a < bp - uint psz - 4 \<or> bp + uint sz - 4 \<le> a \<longrightarrow> mem s' a = mem s a) \<and>
           (\<forall>a. bp - uint psz \<le> a \<and> a < bp + uint sz - 8 \<longrightarrow> mem s' a = mem s a) \<and>
           GET s' (bp - uint psz - 4) = Some (tg (sz + psz) False) \<and>
           GET s' (bp + uint sz - 8) = Some (tg (sz + psz) False) \<and>
           uint (sz + psz) = uint sz + uint psz \<and> (sz + psz) AND 7 = 0"
proof -
  have u: "uint (sz + psz) = uint sz + uint psz"
    using assms(10) by (rule uint_add_small)
  have al: "(sz + psz) AND 7 = 0"
    using assms(7,6) by (rule aligned_add)
  note raw = assms(1-4) [THEN GET_SomeD]
  show ?thesis
    using assms u al raw
    apply (simp add: coalesce_def tg_size tg_alloc GET_SIZE_def GET_ALLOC_def HDRP_def
        PREV_BLKP_def NEXT_BLKP_def FTRP_def Let_def)
    apply (simp add: tg_def same_region_def mm_simps in_heap_def store32_apply_other al tg_size)
    done
qed

lemma coalesce_c4:
  assumes "GET s (bp - 8) = Some (tg psz False)" "GET s (bp - uint psz - 4) = Some (tg psz False)"
    and "GET s (bp - 4) = Some (tg sz False)"
    and "GET s (bp + uint sz - 4) = Some (tg nsz False)"
    and "GET s (bp + uint sz + uint nsz - 8) = Some (tg nsz False)"
    and "psz AND 7 = 0" "sz AND 7 = 0" "nsz AND 7 = 0" "8 \<le> uint sz" "8 \<le> uint psz" "8 \<le> uint nsz"
    and "uint sz + uint psz + uint nsz < 2 ^ 32"
    and "mem_start_brk s \<le> bp - uint psz - 4" "bp + uint sz + uint nsz - 4 \<le> mem_brk s"
  shows "\<exists>s'. coalesce s bp = Some (s', bp - uint psz) \<and> same_region s s' \<and>
           next_fit_ptr s' = bp - uint psz \<and>
           (\<forall>a. a < bp - uint psz - 4 \<or> bp + uint sz + uint nsz - 4 \<le> a \<longrightarrow> mem s' a = mem s a) \<and>
           (\<forall>a. bp - uint psz \<le> a \<and> a < bp + uint sz + uint nsz - 8 \<longrightarrow> mem s' a = mem s a) \<and>
           GET s' (bp - uint psz - 4) = Some (tg (sz + (psz + nsz)) False) \<and>
           GET s' (bp + uint sz + uint nsz - 8) = Some (tg (sz + (psz + nsz)) False) \<and>
           uint (sz + (psz + nsz)) = uint sz + uint psz + uint nsz \<and> (sz + (psz + nsz)) AND 7 = 0"
proof -
  have u0: "uint (psz + nsz) = uint psz + uint nsz"
  proof (rule uint_add_small)
    from assms(9,12) show "uint psz + uint nsz < 2 ^ 32"
      by simp
  qed
  have u: "uint (sz + (psz + nsz)) = uint sz + uint psz + uint nsz"
    using assms(12) u0 by (simp add: uint_add_small)
  have al: "(sz + (psz + nsz)) AND 7 = 0"
    using assms(6,7,8) by (intro aligned_add)
  note raw = assms(1-5) [THEN GET_SomeD]
  show ?thesis
    using assms u al raw
    apply (simp add: coalesce_def tg_size tg_alloc GET_SIZE_def GET_ALLOC_def HDRP_def
        PREV_BLKP_def NEXT_BLKP_def FTRP_def Let_def)
    apply (simp add: tg_def same_region_def mm_simps in_heap_def store32_apply_other al tg_size)
    done
qed

lemma no_adj_free_append:
  "no_adj_free (xs @ ys) \<longleftrightarrow>
     no_adj_free xs \<and> no_adj_free ys \<and>
     (xs = [] \<or> ys = [] \<or> snd (snd (last xs)) \<or> snd (snd (hd ys)))"
proof (induction xs rule: no_adj_free.induct)
  case 1
  then show ?case by simp
next
  case (2 b)
  then show ?case
    by (cases ys; cases b) auto
next
  case (3 q sz a q' sz' a' bs)
  then show ?case
    by auto
qed

lemma no_adj_free_Cons:
  "no_adj_free (b # bs) \<longleftrightarrow> no_adj_free bs \<and> (bs = [] \<or> snd (snd b) \<or> snd (snd (hd bs)))"
  using no_adj_free_append [of "[b]" bs] by simp

lemma no_adj_free_keep:
  assumes "no_adj_free (xs @ [p])" and "no_adj_free ys" and "snd (snd p) \<or> a"
    and "ys = [] \<or> a \<or> snd (snd (hd ys))"
  shows "no_adj_free (xs @ p # (q, z, a) # ys)"
  using assms no_adj_free_append [of "xs @ [p]" "(q, z, a) # ys"]
  by (simp add: no_adj_free_Cons)

lemma no_adj_free_merge:
  assumes "no_adj_free (xs @ [p])" and "\<not> snd (snd p)" and "no_adj_free ys"
    and "ys = [] \<or> snd (snd (hd ys))"
  shows "no_adj_free (xs @ (q, z, False) # ys)"
proof -
  from assms(1,2) have "no_adj_free xs" "xs = [] \<or> snd (snd (last xs))"
    by (simp_all add: no_adj_free_append)
  with assms(3,4) show ?thesis
    by (auto simp: no_adj_free_append no_adj_free_Cons)
qed

lemma no_adj_free_tl: "no_adj_free (b # bs) \<Longrightarrow> no_adj_free bs"
  by (simp add: no_adj_free_Cons)

lemma no_adj_free_free_hd:
  "no_adj_free ((q, z, False) # bs) \<Longrightarrow> bs = [] \<or> snd (snd (hd bs))"
  by (simp add: no_adj_free_Cons)

lemma chain_sandwich:
  assumes "chain s hl xs a" and "chain s b ys e"
    and "mem_start_brk s' = mem_start_brk s" and "mem_brk s \<le> mem_brk s'"
    and fr: "\<And>x. x < a - 4 \<or> b - 4 \<le> x \<Longrightarrow> mem s' x = mem s x"
    and mid: "chain s' a mid b"
  shows "chain s' hl (xs @ mid @ ys) e"
proof -
  have "chain s' hl xs a"
    using assms(1,3,4) by (rule chain_frame) (simp add: fr)
  moreover have "chain s' b ys e"
    using assms(2,3,4) by (rule chain_frame) (simp add: fr)
  ultimately show ?thesis
    using mid by (auto simp: chain_append)
qed

lemma GET_frame:
  assumes "GET s p = Some v"
    and "mem_start_brk s' = mem_start_brk s" and "mem_brk s \<le> mem_brk s'"
    and "\<And>a. p \<le> a \<Longrightarrow> a < p + 4 \<Longrightarrow> mem s' a = mem s a"
  shows "GET s' p = Some v"
  using assms by (auto simp: GET_def in_heap_def load32_def split: if_splits)

text \<open>
  \<^verbatim>\<open>coalesce\<close> on a free block \<open>bp\<close> of a chain that ends at the epilogue header: the result is
  again such a chain without two free neighbours; it has a free block \<open>r\<close>, the one
  returned, that covers the block \<open>bp\<close>; memory outside of \<open>r\<close> is unchanged; the allocated
  blocks are the same; and the cursor is \<open>r\<close>, unless no neighbour was free: then blocks and
  cursor are as they were.
\<close>

lemma coalesce_chain:
  assumes ch: "chain s hl (pre @ (pq, psz, pa) # (bp, sz, False) # post) e"
    and ep: "GET s (e - 4) = Some (PACK 0 1)"
    and bnd: "mem_start_brk s \<le> hl - 4" "e \<le> mem_brk s" "0 \<le> hl" "e < 2 ^ 32"
    and na1: "no_adj_free (pre @ [(pq, psz, pa)])" and na2: "no_adj_free post"
  shows "\<exists>s' r rsz bs'. coalesce s bp = Some (s', r) \<and> same_region s s' \<and>
      chain s' hl bs' e \<and> GET s' (e - 4) = Some (PACK 0 1) \<and> no_adj_free bs' \<and>
      (r, rsz, False) \<in> set bs' \<and> r \<le> bp \<and> bp + uint sz \<le> r + uint rsz \<and>
      (\<forall>a. a < r - 4 \<or> r + uint rsz - 4 \<le> a \<longrightarrow> mem s' a = mem s a) \<and>
      {b \<in> set bs'. snd (snd b)} = {b \<in> set (pre @ (pq, psz, pa) # post). snd (snd b)} \<and>
      fst ` set bs' \<subseteq> fst ` set (pre @ (pq, psz, pa) # (bp, sz, False) # post) \<and>
      (next_fit_ptr s' = next_fit_ptr s \<and> bs' = pre @ (pq, psz, pa) # (bp, sz, False) # post
        \<or> next_fit_ptr s' = r) \<and>
      (snd (snd (hd (pre @ [(pq, psz, pa)]))) \<longrightarrow> hd bs' = hd (pre @ [(pq, psz, pa)]))"
proof -
  let ?P = "(pq, psz, pa)" and ?B = "(bp, sz, False)"
  from ch obtain m where c_pre: "chain s hl pre m" and c2: "chain s m (?P # ?B # post) e"
    by (auto simp: chain_append)
  from c2 have m: "m = pq" and bp: "bp = pq + uint psz"
    and P: "8 \<le> uint psz" "psz AND 7 = 0" "GET s (pq - 4) = Some (tg psz pa)"
      "GET s (pq + uint psz - 8) = Some (tg psz pa)"
    and B: "8 \<le> uint sz" "sz AND 7 = 0" "GET s (bp - 4) = Some (tg sz False)"
      "GET s (bp + uint sz - 8) = Some (tg sz False)"
    and c_post: "chain s (bp + uint sz) post e"
    by auto
  note c_pre = c_pre [unfolded m]
  note l1 = chain_le [OF c_pre] and l3 = chain_le [OF c_post]
  have Pf: "GET s (bp - 8) = Some (tg psz pa)" and Ph: "GET s (bp - uint psz - 4) = Some (tg psz pa)"
    using P bp by (simp_all add: algebra_simps)
  have pqe: "pq = bp - uint psz"
    using bp by simp
  have cPB: "chain s pq [?P] bp"
    using P bp by simp
  have hdP: "hd (pre @ ?P # ?B # post) = hd (pre @ [?P])"
    by (cases pre) auto
  show ?thesis
  proof (cases post)
    case Nil
    with c_post have e: "e = bp + uint sz"
      by simp
    with ep have nh: "GET s (bp + uint sz - 4) = Some (PACK 0 1)"
      by simp
    have w1: "(PACK 0 1 :: uint32) AND 1 = 1"
      by (simp add: PACK_def)
    show ?thesis
    proof (cases pa)
      case True
      from Pf Ph True have Pf': "GET s (bp - 8) = Some (tg psz True)"
        and Ph': "GET s (bp - uint psz - 4) = Some (tg psz True)"
        by simp_all
      have "coalesce s bp = Some (s, bp)"
        using Pf' Ph' B(3) nh w1 P(2) B(2) by (rule coalesce_c1)
      moreover have "no_adj_free (pre @ ?P # ?B # post)"
        using na1 na2 by (rule no_adj_free_keep) (simp_all add: True Nil)
      ultimately show ?thesis
        using ch ep True Nil l1 bp hdP
        by (intro exI [of _ s] exI [of _ bp] exI [of _ sz] exI [of _ "pre @ ?P # ?B # post"])
           auto
    next
      case False
      have sm: "uint sz + uint psz < 2 ^ 32"
        using l1 bnd e bp by simp
      from Pf Ph False have Pf': "GET s (bp - 8) = Some (tg psz False)"
        and Ph': "GET s (bp - uint psz - 4) = Some (tg psz False)"
        by simp_all
      from coalesce_c3 [OF Pf' Ph' B(3) nh w1 P(2) B(2) B(1) P(1) sm]
        bnd l1 e bp
      obtain s' where co: "coalesce s bp = Some (s', bp - uint psz)" and r: "same_region s s'"
        and nf: "next_fit_ptr s' = bp - uint psz"
        and fr: "\<And>a. a < bp - uint psz - 4 \<or> bp + uint sz - 4 \<le> a \<Longrightarrow> mem s' a = mem s a"
        and t1: "GET s' (bp - uint psz - 4) = Some (tg (sz + psz) False)"
        and t2: "GET s' (bp + uint sz - 8) = Some (tg (sz + psz) False)"
        and u: "uint (sz + psz) = uint sz + uint psz" and al: "(sz + psz) AND 7 = 0"
        by auto
      from r have reg: "mem_start_brk s' = mem_start_brk s" "mem_brk s \<le> mem_brk s'"
        by (simp_all add: same_region_def)
      let ?M = "(pq, sz + psz, False)"
      have mid: "chain s' pq [?M] (bp + uint sz)"
        using t1 t2 u al P(1) B(1) bp by (simp add: algebra_simps)
      have "chain s' hl (pre @ [?M] @ post) e"
        using c_pre c_post reg _ mid
      proof (rule chain_sandwich)
        fix x assume "x < pq - 4 \<or> bp + uint sz - 4 \<le> x"
        then show "mem s' x = mem s x"
          using fr pqe by simp
      qed
      moreover have "GET s' (e - 4) = Some (PACK 0 1)"
        using ep reg by (rule GET_frame) (simp add: fr e)
      moreover have "no_adj_free (pre @ [?M] @ post)"
        using no_adj_free_merge [OF na1 _ na2, of pq "sz + psz"] False Nil by simp
      moreover have "snd (snd (hd (pre @ [?P]))) \<longrightarrow> hd (pre @ [?M] @ post) = hd (pre @ [?P])"
        using False by (cases pre) auto
      ultimately show ?thesis
        using co r nf fr u False Nil pqe
        by (intro exI [of _ s'] exI [of _ pq] exI [of _ "sz + psz"] exI [of _ "pre @ [?M] @ post"])
           (auto simp: image_iff)
    qed
  next
    case (Cons N post')
    obtain nq nsz na where N: "N = (nq, nsz, na)"
      by (cases N)
    from c_post Cons N have nq: "nq = bp + uint sz"
      and Nf: "8 \<le> uint nsz" "nsz AND 7 = 0" "GET s (bp + uint sz - 4) = Some (tg nsz na)"
        "GET s (bp + uint sz + uint nsz - 8) = Some (tg nsz na)"
      and c_post': "chain s (bp + uint sz + uint nsz) post' e"
      by auto
    note l4 = chain_le [OF c_post']
    have cN: "chain s (bp + uint sz) [N] (bp + uint sz + uint nsz)"
      using Nf N nq by simp
    show ?thesis
    proof (cases pa)
      case pT: True
      from Pf Ph pT have Pf': "GET s (bp - 8) = Some (tg psz True)"
        and Ph': "GET s (bp - uint psz - 4) = Some (tg psz True)"
        by simp_all
      show ?thesis
      proof (cases na)
        case True
        have w1: "tg nsz True AND 1 = 1"
          using Nf(2) by (simp add: tg_alloc)
        from Nf True have Nh': "GET s (bp + uint sz - 4) = Some (tg nsz True)"
          by simp
        have "coalesce s bp = Some (s, bp)"
          using Pf' Ph' B(3) Nh' w1 P(2) B(2) by (rule coalesce_c1)
        moreover have "no_adj_free (pre @ ?P # ?B # post)"
          using na1 na2 by (rule no_adj_free_keep) (simp_all add: pT True Cons N)
        ultimately show ?thesis
          using ch ep pT Cons l1 bp hdP
          by (intro exI [of _ s] exI [of _ bp] exI [of _ sz] exI [of _ "pre @ ?P # ?B # post"])
             auto
      next
        case False
        have sm: "uint sz + uint nsz < 2 ^ 32"
          using l1 l4 bnd bp P(1) by simp
        from Nf False have Nh': "GET s (bp + uint sz - 4) = Some (tg nsz False)"
          by simp
        from coalesce_c2 [OF Pf' Ph' B(3) Nh' P(2) B(2) Nf(2) B(1) Nf(1) sm] bnd l1 l4 bp P(1)
        obtain s' where co: "coalesce s bp = Some (s', bp)" and r: "same_region s s'"
          and nf: "next_fit_ptr s' = bp"
          and fr: "\<And>a. a < bp - 4 \<or> bp + uint sz + uint nsz - 4 \<le> a \<Longrightarrow> mem s' a = mem s a"
          and t1: "GET s' (bp - 4) = Some (tg (sz + nsz) False)"
          and t2: "GET s' (bp + uint sz + uint nsz - 8) = Some (tg (sz + nsz) False)"
          and u: "uint (sz + nsz) = uint sz + uint nsz" and al: "(sz + nsz) AND 7 = 0"
          by auto
        from r have reg: "mem_start_brk s' = mem_start_brk s" "mem_brk s \<le> mem_brk s'"
          by (simp_all add: same_region_def)
        let ?M = "(bp, sz + nsz, False)"
        have mid: "chain s' bp [?M] (bp + uint sz + uint nsz)"
          using t1 t2 u al B(1) Nf(1) by (simp add: algebra_simps)
        have cpP: "chain s hl (pre @ [?P]) bp"
          using c_pre cPB by (auto simp: chain_append)
        have "chain s' hl ((pre @ [?P]) @ [?M] @ post') e"
          using cpP c_post' reg fr mid by (rule chain_sandwich)
        moreover have "GET s' (e - 4) = Some (PACK 0 1)"
          using ep reg l4 by (intro GET_frame [OF ep reg] fr) simp
        moreover have "no_adj_free ((pre @ [?P]) @ [?M] @ post')"
        proof -
          from na2 Cons N False have "no_adj_free post'" "post' = [] \<or> snd (snd (hd post'))"
            by (simp_all add: no_adj_free_Cons)
          with na1 have "no_adj_free (pre @ ?P # ?M # post')"
            by (intro no_adj_free_keep) (simp_all add: pT)
          then show ?thesis
            by simp
        qed
        moreover have "snd (snd (hd (pre @ [?P]))) \<longrightarrow>
            hd ((pre @ [?P]) @ [?M] @ post') = hd (pre @ [?P])"
          by (cases pre) auto
        ultimately show ?thesis
          using co r nf fr u pT False Cons N
          by (intro exI [of _ s'] exI [of _ bp] exI [of _ "sz + nsz"]
                exI [of _ "(pre @ [?P]) @ [?M] @ post'"])
             (auto simp: image_iff)
      qed
    next
      case pF: False
      from Pf Ph pF have Pf': "GET s (bp - 8) = Some (tg psz False)"
        and Ph': "GET s (bp - uint psz - 4) = Some (tg psz False)"
        by simp_all
      show ?thesis
      proof (cases na)
        case True
        have w1: "tg nsz True AND 1 = 1"
          using Nf(2) by (simp add: tg_alloc)
        have sm: "uint sz + uint psz < 2 ^ 32"
          using l1 l4 bnd bp Nf(1) by simp
        from Nf True have Nh': "GET s (bp + uint sz - 4) = Some (tg nsz True)"
          by simp
        from coalesce_c3 [OF Pf' Ph' B(3) Nh' w1 P(2) B(2) B(1) P(1) sm] bnd l1 l4 bp Nf(1)
        obtain s' where co: "coalesce s bp = Some (s', bp - uint psz)" and r: "same_region s s'"
          and nf: "next_fit_ptr s' = bp - uint psz"
          and fr: "\<And>a. a < bp - uint psz - 4 \<or> bp + uint sz - 4 \<le> a \<Longrightarrow> mem s' a = mem s a"
          and t1: "GET s' (bp - uint psz - 4) = Some (tg (sz + psz) False)"
          and t2: "GET s' (bp + uint sz - 8) = Some (tg (sz + psz) False)"
          and u: "uint (sz + psz) = uint sz + uint psz" and al: "(sz + psz) AND 7 = 0"
          by auto
        from r have reg: "mem_start_brk s' = mem_start_brk s" "mem_brk s \<le> mem_brk s'"
          by (simp_all add: same_region_def)
        let ?M = "(pq, sz + psz, False)"
        have mid: "chain s' pq [?M] (bp + uint sz)"
          using t1 t2 u al P(1) B(1) bp by (simp add: algebra_simps)
        have "chain s' hl (pre @ [?M] @ post) e"
          using c_pre c_post reg _ mid
        proof (rule chain_sandwich)
          fix x assume "x < pq - 4 \<or> bp + uint sz - 4 \<le> x"
          then show "mem s' x = mem s x"
            using fr pqe by simp
        qed
        moreover have "GET s' (e - 4) = Some (PACK 0 1)"
          using l3 by (intro GET_frame [OF ep reg] fr) simp
        moreover have "no_adj_free (pre @ [?M] @ post)"
          using no_adj_free_merge [OF na1 _ na2, of pq "sz + psz"] pF True Cons N by simp
        moreover have "snd (snd (hd (pre @ [?P]))) \<longrightarrow> hd (pre @ [?M] @ post) = hd (pre @ [?P])"
          using pF by (cases pre) auto
        ultimately show ?thesis
          using co r nf fr u pF Cons N pqe
          by (intro exI [of _ s'] exI [of _ pq] exI [of _ "sz + psz"] exI [of _ "pre @ [?M] @ post"])
             (auto simp: image_iff)
      next
        case False
        have sm: "uint sz + uint psz + uint nsz < 2 ^ 32"
          using l1 l4 bnd bp by simp
        from Nf False have Nh': "GET s (bp + uint sz - 4) = Some (tg nsz False)"
          and Nft': "GET s (bp + uint sz + uint nsz - 8) = Some (tg nsz False)"
          by simp_all
        from coalesce_c4 [OF Pf' Ph' B(3) Nh' Nft' P(2) B(2) Nf(2) B(1) P(1) Nf(1) sm]
          bnd l1 l4 bp
        obtain s' where co: "coalesce s bp = Some (s', bp - uint psz)" and r: "same_region s s'"
          and nf: "next_fit_ptr s' = bp - uint psz"
          and fr: "\<And>a. a < bp - uint psz - 4 \<or> bp + uint sz + uint nsz - 4 \<le> a
                \<Longrightarrow> mem s' a = mem s a"
          and t1: "GET s' (bp - uint psz - 4) = Some (tg (sz + (psz + nsz)) False)"
          and t2: "GET s' (bp + uint sz + uint nsz - 8) = Some (tg (sz + (psz + nsz)) False)"
          and u: "uint (sz + (psz + nsz)) = uint sz + uint psz + uint nsz"
          and al: "(sz + (psz + nsz)) AND 7 = 0"
          by auto
        from r have reg: "mem_start_brk s' = mem_start_brk s" "mem_brk s \<le> mem_brk s'"
          by (simp_all add: same_region_def)
        let ?M = "(pq, sz + (psz + nsz), False)"
        have mid: "chain s' pq [?M] (bp + uint sz + uint nsz)"
          using t1 t2 u al P(1) B(1) Nf(1) bp by (simp add: algebra_simps)
        have "chain s' hl (pre @ [?M] @ post') e"
          using c_pre c_post' reg _ mid
        proof (rule chain_sandwich)
          fix x assume "x < pq - 4 \<or> bp + uint sz + uint nsz - 4 \<le> x"
          then show "mem s' x = mem s x"
            using fr pqe by simp
        qed
        moreover have "GET s' (e - 4) = Some (PACK 0 1)"
          using l4 by (intro GET_frame [OF ep reg] fr) simp
        moreover have "no_adj_free (pre @ [?M] @ post')"
        proof -
          from na2 Cons N False have "no_adj_free post'" "post' = [] \<or> snd (snd (hd post'))"
            by (simp_all add: no_adj_free_Cons)
          with no_adj_free_merge [OF na1 _ this(1), of pq "sz + (psz + nsz)"] pF show ?thesis
            by simp
        qed
        moreover have "snd (snd (hd (pre @ [?P]))) \<longrightarrow> hd (pre @ [?M] @ post') = hd (pre @ [?P])"
          using pF by (cases pre) auto
        ultimately show ?thesis
          using co r nf fr u pF False Cons N pqe
          by (intro exI [of _ s'] exI [of _ pq] exI [of _ "sz + (psz + nsz)"]
                exI [of _ "pre @ [?M] @ post'"])
             (auto simp: image_iff)
      qed
    qed
  qed
qed

section \<open>Well-formed heaps are preserved\<close>

subsection \<open>\<^verbatim>\<open>mm_free\<close>\<close>

lemma chain_disjoint:
  "chain s bp bs e \<Longrightarrow> (q1, z1, a1) \<in> set bs \<Longrightarrow> (q2, z2, a2) \<in> set bs \<Longrightarrow>
     (q1, z1, a1) = (q2, z2, a2) \<or> q1 + uint z1 \<le> q2 \<or> q2 + uint z2 \<le> q1"
proof (induction bs arbitrary: bp)
  case Nil
  then show ?case by simp
next
  case (Cons b bs)
  obtain q z a where b: "b = (q, z, a)"
    by (cases b)
  from Cons.prems(1) b have c: "chain s (bp + uint z) bs e" "q = bp"
    by simp_all
  consider "(q1, z1, a1) = b" "(q2, z2, a2) = b"
    | "(q1, z1, a1) = b" "(q2, z2, a2) \<in> set bs"
    | "(q1, z1, a1) \<in> set bs" "(q2, z2, a2) = b"
    | "(q1, z1, a1) \<in> set bs" "(q2, z2, a2) \<in> set bs"
    using Cons.prems(2,3) by auto
  then show ?case
  proof cases
    case 1
    then show ?thesis by simp
  next
    case 2
    with chain_bounds [OF c(1) 2(2)] b c show ?thesis
      by simp
  next
    case 3
    with chain_bounds [OF c(1) 3(1)] b c show ?thesis
      by simp
  next
    case 4
    with Cons.IH [OF c(1)] show ?thesis
      by simp
  qed
qed



lemma chain_mid_notin:
  assumes "chain s bp (xs @ (q, z, a) # ys) e"
  shows "(q, z, a) \<notin> set xs" and "(q, z, a) \<notin> set ys"
proof -
  from assms obtain m where c1: "chain s bp xs m" and c2: "chain s m ((q, z, a) # ys) e"
    by (auto simp: chain_append)
  from c2 have m: "m = q" and z: "8 \<le> uint z" and c3: "chain s (q + uint z) ys e"
    by simp_all
  show "(q, z, a) \<notin> set xs"
    using chain_bounds [OF c1, of q z a] m z by auto
  show "(q, z, a) \<notin> set ys"
    using chain_bounds [OF c3, of q z a] z by auto
qed

lemma chain_hd_notin: "chain s bp (b # bs) e \<Longrightarrow> b \<notin> set bs"
  using chain_mid_notin(2) [of s bp "[]" "fst b" "fst (snd b)" "snd (snd b)" bs e] by simp

lemma heap_inv_prologue_notin:
  assumes "heap_inv s bs"
  shows "(heap_listp s, 8, True) \<notin> set bs"
proof -
  from assms have "chain s (heap_listp s) ([] @ (heap_listp s, 8, True) # bs) (mem_brk s)"
    by (simp add: heap_inv_def)
  then show ?thesis
    by (rule chain_mid_notin(2))
qed


subsection \<open>\<^verbatim>\<open>find_fit\<close> and \<^verbatim>\<open>place\<close>\<close>

lemma chain_cursor_upd [simp]: "chain (s\<lparr>next_fit_ptr := c\<rparr>) bp bs e = chain s bp bs e"
  by (induction bs arbitrary: bp) auto



lemma first_fit_None_loop:
  "chain s bp bs e \<Longrightarrow> GET s (e - 4) = Some (PACK 0 1) \<Longrightarrow> first_fit asize bs = None \<Longrightarrow>
     find_fit_loop s asize bp = Some None"
  using find_fit_loop_chain by fastforce




subsection \<open>\<^verbatim>\<open>extend_heap\<close>\<close>


text \<open>The state in which \<^verbatim>\<open>extend_heap\<close> calls \<^verbatim>\<open>coalesce\<close>.\<close>

lemma extend_heap_effect:
  assumes words: "0 < words" "uint words \<le> 2 ^ 30 - 2"
    and room: "0 < mem_start_brk s" "mem_start_brk s + 4 \<le> mem_brk s"
    and fits: "mem_brk s + 4 * round_even (uint words) \<le> mem_max_addr s"
  shows "\<exists>s3 wn. extend_heap s words = coalesce s3 (mem_brk s) \<and>
           uint wn = 4 * round_even (uint words) \<and> 8 \<le> uint wn \<and> wn AND 7 = 0 \<and>
           mem_brk s3 = mem_brk s + uint wn \<and> mem_start_brk s3 = mem_start_brk s \<and>
           mem_max_addr s3 = mem_max_addr s \<and> heap_listp s3 = heap_listp s \<and>
           next_fit_ptr s3 = next_fit_ptr s \<and>
           (\<forall>a. a < mem_brk s - 4 \<longrightarrow> mem s3 a = mem s a) \<and>
           GET s3 (mem_brk s - 4) = Some (tg wn False) \<and>
           GET s3 (mem_brk s + uint wn - 8) = Some (tg wn False) \<and>
           GET s3 (mem_brk s + uint wn - 4) = Some (PACK 0 1)"
proof -
  define sz :: uint32 where "sz = (if words mod 2 \<noteq> 0 then (words + 1) * WSIZE else words * WSIZE)"
  have usz: "uint sz = 4 * round_even (uint words)"
    unfolding sz_def using words(2) by (rule extend_size)
  have "0 < uint words"
    using words(1) by (simp add: word_less_def)
  then have ge: "8 \<le> uint sz"
    unfolding usz round_even_def by (auto elim: oddE evenE)
  have "8 dvd uint sz"
    unfolding usz round_even_def by (auto elim!: oddE evenE)
  then have al: "sz AND 7 = 0"
    by (simp add: low3_iff_dvd)
  have eq: "extend_heap s words =
     (case mem_sbrk s (uint sz) of (s0, bp) \<Rightarrow>
        if bp = - 1 then Some (s0, NULL)
        else do {
          s1 \<leftarrow> PUT s0 (HDRP bp) (PACK sz 0);
          fp \<leftarrow> FTRP s1 bp;
          s2 \<leftarrow> PUT s1 fp (PACK sz 0);
          nb \<leftarrow> NEXT_BLKP s2 bp;
          s3 \<leftarrow> PUT s2 (HDRP nb) (PACK 0 1);
          coalesce s3 bp
        })"
    unfolding extend_heap_def sz_def Let_def ..
  from fits usz have fits': "mem_brk s + uint sz \<le> mem_max_addr s"
    by simp
  show ?thesis
    unfolding eq
    using ge room al fits'
    apply (simp add: mem_sbrk_def tg_def)
    apply (simp add: mm_simps in_heap_def)
    apply (rule exI, rule conjI, rule refl, rule exI [of _ sz])
    apply (simp add: mm_simps in_heap_def usz store32_apply_other)
    done
qed

text \<open>
  Extending a well-formed heap that the memory source can grow leaves a well-formed heap
  with the same allocated blocks, their contents unchanged, and a free block at least as
  large as the extension.
\<close>

lemma extend_step:
  assumes inv: "heap_inv s L" and words: "0 < words" "uint words \<le> 2 ^ 30 - 2"
    and fits: "mem_brk s + 4 * round_even (uint words) \<le> mem_max_addr s"
  shows "\<exists>s2 r rsz L'. extend_heap s words = Some (s2, r) \<and> heap_inv s2 L' \<and>
     (r, rsz, False) \<in> set L' \<and> 4 * round_even (uint words) \<le> uint rsz \<and> r \<noteq> NULL \<and>
     r \<le> mem_brk s \<and> mem_brk s + 4 * round_even (uint words) \<le> r + uint rsz \<and>
     {x \<in> set L'. snd (snd x)} = {x \<in> set L. snd (snd x)} \<and>
     mem_brk s2 = mem_brk s + 4 * round_even (uint words) \<and>
     mem_start_brk s2 = mem_start_brk s \<and> mem_max_addr s2 = mem_max_addr s \<and>
     heap_listp s2 = heap_listp s \<and>
     (\<forall>q z. (q, z, True) \<in> set L \<longrightarrow>
        (\<forall>a. q - 4 \<le> a \<and> a < q + uint z - 4 \<longrightarrow> mem s2 a = mem s a))"
proof -
  let ?hl = "heap_listp s" and ?e = "mem_brk s"
  let ?pro = "(?hl, 8 :: uint32, True)"
  from inv have st: "0 < mem_start_brk s" "?e \<le> mem_max_addr s" "mem_max_addr s < 2 ^ 32"
    "mem_start_brk s + 8 \<le> ?hl"
    and ch: "chain s ?hl (?pro # L) ?e" and ep: "GET s (?e - 4) = Some (PACK 0 1)"
    and naf: "no_adj_free L"
    and cur: "next_fit_ptr s \<in> insert ?e (insert ?hl (fst ` set L))"
    by (simp_all add: heap_inv_def)
  note l0 = chain_le [OF ch]
  from extend_heap_effect [OF words st(1) _ fits] st l0
  obtain s3 wn where eq: "extend_heap s words = coalesce s3 ?e"
    and wn: "uint wn = 4 * round_even (uint words)" "8 \<le> uint wn" "wn AND 7 = 0"
    and reg3: "mem_brk s3 = ?e + uint wn" "mem_start_brk s3 = mem_start_brk s"
      "mem_max_addr s3 = mem_max_addr s" "heap_listp s3 = ?hl" "next_fit_ptr s3 = next_fit_ptr s"
    and fr3: "\<And>a. a < ?e - 4 \<Longrightarrow> mem s3 a = mem s a"
    and t: "GET s3 (?e - 4) = Some (tg wn False)" "GET s3 (?e + uint wn - 8) = Some (tg wn False)"
      "GET s3 (?e + uint wn - 4) = Some (PACK 0 1)"
    by auto
  let ?e3 = "?e + uint wn"
  let ?B = "(?e, wn, False)"
  have c_old: "chain s3 ?hl (?pro # L) ?e"
    using ch reg3(2) by (rule chain_frame) (simp_all add: reg3 fr3)
  have c_new: "chain s3 ?e [?B] ?e3"
    using t wn by simp
  obtain pre P where pP: "?pro # L = pre @ [P]"
    by (cases L rule: rev_cases) auto
  obtain pq psz pa where P: "P = (pq, psz, pa)"
    by (cases P)
  have hdp: "hd (pre @ [P]) = ?pro"
    using pP by (metis list.sel(1))
  have "chain s3 ?hl ((pre @ [P]) @ [?B]) ?e3"
    using c_old c_new unfolding pP [symmetric] chain_append by blast
  then have ch3: "chain s3 ?hl (pre @ (pq, psz, pa) # ?B # []) ?e3"
    using P by simp
  have na1: "no_adj_free (pre @ [(pq, psz, pa)])"
    using naf pP P by (metis no_adj_free_Cons snd_conv)
  have b1: "mem_start_brk s3 \<le> ?hl - 4" "?e3 \<le> mem_brk s3" "0 \<le> ?hl" "?e3 < 2 ^ 32"
    using st reg3 fits wn by simp_all
  have na2: "no_adj_free ([] :: blk list)"
    by simp
  from coalesce_chain [OF ch3 t(3) b1 na1 na2]
  obtain s2 r rsz bf where co: "coalesce s3 ?e = Some (s2, r)" and r3: "same_region s3 s2"
    and ch': "chain s2 ?hl bf ?e3" and ep': "GET s2 (?e3 - 4) = Some (PACK 0 1)"
    and naf': "no_adj_free bf" and rin: "(r, rsz, False) \<in> set bf"
    and rle: "r \<le> ?e" "?e + uint wn \<le> r + uint rsz"
    and fr2: "\<And>a. a < r - 4 \<or> r + uint rsz - 4 \<le> a \<Longrightarrow> mem s2 a = mem s3 a"
    and al: "{b \<in> set bf. snd (snd b)} = {b \<in> set (pre @ (pq, psz, pa) # []). snd (snd b)}"
    and cu: "next_fit_ptr s2 = next_fit_ptr s3 \<and> bf = pre @ (pq, psz, pa) # ?B # []
        \<or> next_fit_ptr s2 = r"
    and hd: "snd (snd (hd (pre @ [(pq, psz, pa)]))) \<longrightarrow> hd bf = hd (pre @ [(pq, psz, pa)])"
    by blast
  from hd hdp P have "hd bf = ?pro"
    by simp
  moreover from rin have "bf \<noteq> []"
    by auto
  ultimately obtain L' where bf: "bf = ?pro # L'"
    by (cases bf) auto
  from r3 reg3 have reg: "mem_start_brk s2 = mem_start_brk s" "mem_brk s2 = ?e3"
    "heap_listp s2 = ?hl" "mem_max_addr s2 = mem_max_addr s"
    by (simp_all add: same_region_def)
  have ext: "extend_heap s words = Some (s2, r)"
    using eq co by simp
  have pro_new: "?pro \<notin> set L'"
    using ch' [unfolded bf] by (rule chain_hd_notin)
  have pro_old: "?pro \<notin> set L"
    using inv by (rule heap_inv_prologue_notin)
  have set_old: "set (pre @ (pq, psz, pa) # []) = insert ?pro (set L)"
    using arg_cong [OF pP, of set] P by simp
  have alloc: "{b \<in> set L'. snd (snd b)} = {b \<in> set L. snd (snd b)}"
  proof (intro set_eqI iffI)
    fix b assume "b \<in> {b \<in> set L'. snd (snd b)}"
    then have b: "b \<in> set L'" "snd (snd b)"
      by simp_all
    with bf have "b \<in> {b \<in> set bf. snd (snd b)}"
      by simp
    then have "b \<in> insert ?pro (set L)"
      unfolding al set_old by simp
    moreover from b(1) pro_new have "b \<noteq> ?pro"
      by blast
    ultimately show "b \<in> {b \<in> set L. snd (snd b)}"
      using b(2) by blast
  next
    fix b assume "b \<in> {b \<in> set L. snd (snd b)}"
    then have b: "b \<in> set L" "snd (snd b)"
      by simp_all
    then have "b \<in> {b \<in> set bf. snd (snd b)}"
      unfolding al set_old by simp
    then have "b \<in> set (?pro # L')"
      unfolding bf by simp
    moreover from b(1) pro_old have "b \<noteq> ?pro"
      by blast
    ultimately show "b \<in> {b \<in> set L'. snd (snd b)}"
      using b(2) by simp
  qed
  have cur': "next_fit_ptr s2 \<in> insert (mem_brk s2) (insert (heap_listp s2) (fst ` set L'))"
  proof -
    from cu show ?thesis
    proof
      assume a: "next_fit_ptr s2 = next_fit_ptr s3 \<and> bf = pre @ (pq, psz, pa) # ?B # []"
      then have "?pro # L' = (pre @ [P]) @ [?B]"
        using bf P by simp
      then have "?pro # L' = ?pro # L @ [?B]"
        unfolding pP [symmetric] by simp
      then have "L' = L @ [?B]"
        by simp
      then have "fst ` set L' = insert ?e (fst ` set L)"
        by auto
      with cur a reg3 reg show ?thesis
        by auto
    next
      assume "next_fit_ptr s2 = r"
      moreover from rin bf have "r \<in> insert ?hl (fst ` set L')"
        by force
      ultimately show ?thesis
        using reg by simp
    qed
  qed
  have inv': "heap_inv s2 L'"
    unfolding heap_inv_def
    using st reg ch' [unfolded bf] ep' naf' [unfolded bf, THEN no_adj_free_tl] cur' fits wn
    by simp
  have free: "(r, rsz, False) \<in> set L'"
    using rin bf by auto
  have big: "4 * round_even (uint words) \<le> uint rsz"
    using rle wn by simp
  have rn: "r \<noteq> NULL"
    using chain_bounds [OF ch' rin] st by simp
  have frame: "mem s2 a = mem s a" if "(q, z, True) \<in> set L" "q - 4 \<le> a" "a < q + uint z - 4"
    for q z a
  proof -
    from that(1) have "(q, z, True) \<in> {b \<in> set L'. snd (snd b)}"
      unfolding alloc by simp
    with bf have "(q, z, True) \<in> set bf"
      by simp
    from chain_disjoint [OF ch' this rin]
    have "q + uint z \<le> r \<or> r + uint rsz \<le> q"
      by simp
    with that(2,3) have o: "a < r - 4 \<or> r + uint rsz - 4 \<le> a"
      by auto
    from that(1) have "(q, z, True) \<in> set (?pro # L)"
      by simp
    from chain_bounds [OF ch this] that(3) have "a < ?e - 4"
      by simp
    with fr3 fr2 [OF o] show ?thesis
      by simp
  qed
  have "\<forall>q z. (q, z, True) \<in> set L \<longrightarrow>
        (\<forall>a. q - 4 \<le> a \<and> a < q + uint z - 4 \<longrightarrow> mem s2 a = mem s a)"
    using frame by blast
  then show ?thesis
    using ext inv' free big rn alloc reg wn(1) rle
    by (intro exI [of _ s2] exI [of _ r] exI [of _ rsz] exI [of _ L']) simp
qed

subsection \<open>\<^verbatim>\<open>mm_malloc\<close> and \<^verbatim>\<open>mm_init\<close>\<close>





text \<open>
  In an empty region with room for the first \<open>16 + 65536\<close> bytes \<^verbatim>\<open>mm_init\<close> succeeds and
  builds a well-formed heap without allocated blocks.
\<close>

lemma mm_init_inv:
  assumes st: "0 < mem_start_brk s" "mem_start_brk s \<le> mem_brk s"
    and room: "mem_brk s + 16 + 65536 \<le> mem_max_addr s" and mx: "mem_max_addr s < 2 ^ 32"
  shows "\<exists>s' L. mm_init s = Some (s', 0) \<and> heap_inv s' L \<and> {x \<in> set L. snd (snd x)} = {} \<and>
     heap_listp s' = mem_brk s + 8 \<and> mem_brk s' = mem_brk s + 16 + 65536 \<and>
     mem_start_brk s' = mem_start_brk s \<and> mem_max_addr s' = mem_max_addr s"
proof -
  let ?b = "mem_brk s"
  define s7 where "s7 = s\<lparr>mem_brk := ?b + 16, heap_listp := ?b + 8,
      mem := store32 (store32 (store32 (store32 (mem s) ?b 0) (?b + 4)
        (PACK 8 1)) (?b + 8) (PACK 8 1)) (?b + 12) (PACK 0 1),
      next_fit_ptr := ?b + 8\<rparr>"
  have eq: "mm_init s = extend_heap s7 (CHUNKSIZE div WSIZE) \<bind>
      (\<lambda>(s8, bp). if bp = NULL then Some (s8, - 1) else Some (s8, 0))"
    unfolding mm_init_def mem_sbrk_def s7_def using st room
    by (simp add: PUT_def in_heap_def Let_def) (simp add: add.commute)
  have g: "GET s7 (?b + 4) = Some (PACK 8 1)" "GET s7 (?b + 8) = Some (PACK 8 1)"
    "GET s7 (?b + 12) = Some (PACK 0 1)"
    unfolding s7_def using st
    by (simp_all add: GET_def in_heap_def load32_store32_same load32_store32_other)
  have f7: "mem_start_brk s7 = mem_start_brk s" "mem_brk s7 = ?b + 16"
    "mem_max_addr s7 = mem_max_addr s" "heap_listp s7 = ?b + 8" "next_fit_ptr s7 = ?b + 8"
    by (simp_all add: s7_def)
  have inv7: "heap_inv s7 []"
    unfolding heap_inv_def using st room mx
    by (simp add: f7 g [simplified add.commute [of "mem_brk s"]] tg_def)
  have w: "(0 :: uint32) < 16384" "uint (16384 :: uint32) \<le> 2 ^ 30 - 2"
    "round_even (uint (16384 :: uint32)) = 16384"
    by (simp_all add: round_even_def)
  have f: "mem_brk s7 + 4 * round_even (uint (16384 :: uint32)) \<le> mem_max_addr s7"
    using room by (simp add: round_even_def f7)
  from extend_step [OF inv7 w(1,2) f]
  obtain s2 r rsz L' where ex: "extend_heap s7 16384 = Some (s2, r)" and inv2: "heap_inv s2 L'"
    and rn: "r \<noteq> NULL" and al: "{x \<in> set L'. snd (snd x)} = {}"
    and reg: "mem_brk s2 = mem_brk s7 + 4 * round_even (uint (16384 :: uint32))"
      "mem_start_brk s2 = mem_start_brk s7" "mem_max_addr s2 = mem_max_addr s7"
      "heap_listp s2 = heap_listp s7"
    by auto
  have "mm_init s = Some (s2, 0)"
    using eq ex rn by simp
  with inv2 al reg show ?thesis
    by (intro exI [of _ s2] exI [of _ L']) (simp add: round_even_def f7)
qed


text \<open>\<^verbatim>\<open>mm_free\<close> marks the block free and calls \<^verbatim>\<open>coalesce\<close>.\<close>

lemma mm_free_marked:
  "mm_free s bp = do { s2 \<leftarrow> free_marked s bp; (s3, _) \<leftarrow> coalesce s2 bp; Some s3 }"
  by (simp add: mm_free_def free_marked_def)

section \<open>The claims\<close>

text \<open>
  Claim C6. Placing an adjusted size \<open>asize\<close> (a positive multiple of 8) into a block of
  size \<open>csize \<ge> asize\<close> that lies inside the heap always succeeds. If
  \<open>csize - asize \<ge> 16\<close> the block is split into an allocated block of size exactly
  \<open>asize\<close> at \<open>bp\<close> and a free block of size exactly \<open>csize - asize\<close> right behind it,
  each with matching header and footer; otherwise the whole block is marked allocated
  at its size \<open>csize\<close>.
\<close>

theorem place_splits:
  assumes hdr: "GET_SIZE s (HDRP bp) = Some csize"
    and al: "asize AND 7 = 0" and pos: "0 < asize" and le: "asize \<le> csize"
    and inh: "in_heap s (HDRP bp) (uint csize)"
  shows "\<exists>s'. place s bp asize = Some s' \<and>
     (if DSIZE + OVERHEAD \<le> csize - asize
      then tagged_block s' bp asize 1 \<and> NEXT_BLKP s' bp = Some (bp + uint asize) \<and>
           tagged_block s' (bp + uint asize) (csize - asize) 0
      else tagged_block s' bp csize 1)"
proof -
  from hdr have cal: "csize AND 7 = 0"
    by (auto simp: GET_SIZE_def size_bits_low3 split: bind_splits)
  have a8: "8 \<le> uint asize"
    using al pos by (rule aligned_ge8)
  have lei: "uint asize \<le> uint csize"
    using le by (simp add: word_le_def)
  have sub: "uint (csize - asize) = uint csize - uint asize"
    using le by (rule uint_sub_le)
  have dal: "(csize - asize) AND 7 = 0"
    using cal al by (rule aligned_sub)
  show ?thesis
  proof (cases "DSIZE + OVERHEAD \<le> csize - asize")
    case True
    then have "16 \<le> uint (csize - asize)"
      by (simp add: word_le_def)
    with sub have big: "uint asize + 16 \<le> uint csize"
      by simp
    show ?thesis
      using hdr True a8 big inh sub
      apply (simp add: place_def tagged_block_def)
      apply (simp add: mm_simps al dal in_heap_def split: bind_splits)
      done
  next
    case False
    show ?thesis
      using hdr False a8 lei inh
      apply (simp add: place_def tagged_block_def)
      apply (simp add: mm_simps cal in_heap_def split: bind_splits)
      done
  qed
qed

theorem place_splits_witness:
  "GET_SIZE heap0 (HDRP 4112) = Some 65536 \<and> (24 :: uint32) AND 7 = 0 \<and> (0 :: uint32) < 24 \<and>
   (24 :: uint32) \<le> 65536 \<and> in_heap heap0 (HDRP 4112) (uint (65536 :: uint32)) \<and>
   (\<exists>s'. place heap0 4112 24 = Some s' \<and> tagged_block s' 4112 24 1 \<and>
      NEXT_BLKP s' 4112 = Some 4136 \<and> tagged_block s' 4136 65512 0)"
proof -
  have h1: "GET_SIZE heap0 (HDRP 4112) = Some 65536"
    by code_simp
  have h2: "(24 :: uint32) AND 7 = 0"
    by simp
  have h3: "(0 :: uint32) < 24"
    by simp
  have h4: "(24 :: uint32) \<le> 65536"
    by simp
  have h5: "in_heap heap0 (HDRP 4112) (uint (65536 :: uint32))"
    by code_simp
  from place_splits [OF h1 h2 h3 h4 h5] h1 h2 h3 h4 h5 show ?thesis
    by simp
qed

text \<open>
  Claim C5, as amended. With address 0 outside the heap, \<^verbatim>\<open>find_fit\<close> returns exactly
  when stepping from the cursor with \<^verbatim>\<open>NEXT_BLKP\<close>, over blocks of positive size that
  do not fit, reaches either a free block of size at least \<open>asize\<close> or a header of size
  0. In the first case that block is returned (it is not \<^verbatim>\<open>NULL\<close>) and becomes the
  cursor. In the second case \<^verbatim>\<open>NULL\<close> is returned and the cursor becomes
  \<open>heap_listp\<close>, the block pointer of the prologue at the start of the heap; blocks in
  front of the old cursor are not looked at, so there is no wrap-around retry.
\<close>

theorem find_fit_next_fit:
  assumes "0 < mem_start_brk s"
  shows "find_fit s asize = Some (s', r) \<longleftrightarrow>
     (\<exists>n b. scan s asize (next_fit_ptr s) n b \<and>
        (is_fit s asize b \<and> r = b \<and> r \<noteq> NULL \<and> s' = s\<lparr>next_fit_ptr := b\<rparr>
         \<or> is_end s b \<and> r = NULL \<and> s' = s\<lparr>next_fit_ptr := heap_listp s\<rparr>))"
proof
  assume a: "find_fit s asize = Some (s', r)"
  then obtain x where x: "find_fit_loop s asize (next_fit_ptr s) = Some x"
    by (auto simp: find_fit_def split: option.splits)
  from find_fit_loop_sound [OF x] obtain n b where sc: "scan s asize (next_fit_ptr s) n b"
    and fin: "case x of Some y \<Rightarrow> y = b \<and> is_fit s asize b | None \<Rightarrow> is_end s b"
    by blast
  show "\<exists>n b. scan s asize (next_fit_ptr s) n b \<and>
        (is_fit s asize b \<and> r = b \<and> r \<noteq> NULL \<and> s' = s\<lparr>next_fit_ptr := b\<rparr>
         \<or> is_end s b \<and> r = NULL \<and> s' = s\<lparr>next_fit_ptr := heap_listp s\<rparr>)"
  proof (cases x)
    case None
    with a x fin sc show ?thesis
      by (auto simp: find_fit_def)
  next
    case (Some y)
    with fin have "is_fit s asize b" "y = b"
      by simp_all
    moreover from \<open>is_fit s asize b\<close> assms have "b \<noteq> NULL"
      by (auto simp: is_fit_def GET_SIZE_def GET_def HDRP_def in_heap_def
          split: option.splits bind_splits if_splits)
    ultimately show ?thesis
      using a x sc Some by (auto simp: find_fit_def)
  qed
next
  assume "\<exists>n b. scan s asize (next_fit_ptr s) n b \<and>
        (is_fit s asize b \<and> r = b \<and> r \<noteq> NULL \<and> s' = s\<lparr>next_fit_ptr := b\<rparr>
         \<or> is_end s b \<and> r = NULL \<and> s' = s\<lparr>next_fit_ptr := heap_listp s\<rparr>)"
  then show "find_fit s asize = Some (s', r)"
    by (auto simp: find_fit_def dest: find_fit_loop_complete)
qed

theorem find_fit_next_fit_witness:
  "0 < mem_start_brk heap0 \<and>
   find_fit heap0 16 = Some (heap0\<lparr>next_fit_ptr := 4112\<rparr>, 4112) \<and>
   (\<exists>n. scan heap0 16 (next_fit_ptr heap0) n 4112) \<and> is_fit heap0 16 4112 \<and>
   find_fit heap0 1048576 = Some (heap0\<lparr>next_fit_ptr := heap_listp heap0\<rparr>, NULL) \<and>
   (\<exists>n b. scan heap0 1048576 (next_fit_ptr heap0) n b \<and> is_end heap0 b)"
proof -
  have h: "0 < mem_start_brk heap0"
    by code_simp
  have "find_fit_loop heap0 16 (next_fit_ptr heap0) = Some (Some 4112)"
    by code_simp
  then have f1: "find_fit heap0 16 = Some (heap0\<lparr>next_fit_ptr := 4112\<rparr>, 4112)"
    by (simp add: find_fit_def)
  have "find_fit_loop heap0 1048576 (next_fit_ptr heap0) = Some None"
    by code_simp
  then have f2: "find_fit heap0 1048576 = Some (heap0\<lparr>next_fit_ptr := heap_listp heap0\<rparr>, NULL)"
    by (simp add: find_fit_def)
  from find_fit_next_fit [OF h, THEN iffD1, OF f1]
  have "(\<exists>n. scan heap0 16 (next_fit_ptr heap0) n 4112) \<and> is_fit heap0 16 4112"
    by auto
  moreover from find_fit_next_fit [OF h, THEN iffD1, OF f2]
  have "\<exists>n b. scan heap0 1048576 (next_fit_ptr heap0) n b \<and> is_end heap0 b"
    by auto
  ultimately show ?thesis
    using h f1 f2 by simp
qed

theorem find_fit_resets_to_prologue:
  "snd (the (find_fit heap0 1048576)) = NULL \<and>
   next_fit_ptr (fst (the (find_fit heap0 1048576))) = 4104 \<and>
   heap_listp heap0 = 4104 \<and>
   tagged_block heap0 4104 8 1 \<and>
   NEXT_BLKP heap0 (heap_listp heap0) = Some 4112 \<and>
   tagged_block heap0 4112 65536 0 \<and>
   next_fit_ptr (fst (the (find_fit heap0 1048576))) \<noteq> 4112"
proof -
  have "find_fit_loop heap0 1048576 (next_fit_ptr heap0) = Some None"
    by code_simp
  then have "find_fit heap0 1048576 = Some (heap0\<lparr>next_fit_ptr := heap_listp heap0\<rparr>, NULL)"
    by (simp add: find_fit_def)
  moreover have "heap_listp heap0 = 4104"
    by code_simp
  moreover have "tagged_block heap0 4104 8 1"
    by code_simp
  moreover have "NEXT_BLKP heap0 4104 = Some 4112"
    by code_simp
  moreover have "tagged_block heap0 4112 65536 0"
    by code_simp
  ultimately show ?thesis
    by simp
qed

text \<open>
  Claim C9. \<^verbatim>\<open>mm_malloc(0)\<close> returns \<^verbatim>\<open>NULL\<close> and leaves the whole state as it was: no
  tag word, neither global pointer and not the extent of the heap changes. (The argument
  is unsigned, so 0 is the only size with \<^verbatim>\<open>size <= 0\<close>.)
\<close>

theorem mm_malloc_zero: "mm_malloc s 0 = Some (s, NULL)"
  by (simp add: mm_malloc_def)

text \<open>
  Claim C10. For every pointer, \<^verbatim>\<open>mm_realloc(ptr, 0)\<close> does not return: the internal
  \<^verbatim>\<open>mm_malloc(0)\<close> yields \<^verbatim>\<open>NULL\<close>, which \<^verbatim>\<open>mm_realloc\<close> takes for an allocation
  failure; it prints its error message and terminates the process with status 1.
\<close>

theorem mm_realloc_zero_exits:
  "mm_realloc s ptr 0 = Some (Exited ''ERROR: mm_malloc failed in mm_realloc'' 1)"
  by (simp add: mm_realloc_def mm_malloc_def)






text \<open>
  Claim C2, as amended. Let \<open>bp\<close> be a block marked free, of size \<open>sz\<close>, between a block of
  size \<open>psz\<close> in front and a header of size \<open>nsz\<close> behind (the epilogue header has size
  0 and is allocated), all inside the heap. \<^verbatim>\<open>coalesce(bp)\<close> returns. If both neighbours
  are allocated, nothing is merged and the state, with the cursor, is left as it was.
  In the three other cases the block is merged with its free neighbours into one free
  block with matching header and footer, that block is returned, and the cursor is set
  to it.

  The claim as first stated fails in the first case: after three allocations of 8 bytes
  at 4112, 4128 and 4144, freeing the middle block leaves the cursor at 4160, where the
  last allocation put it, and not at the freed block 4128.
\<close>

theorem coalesce_cursor_by_case:
  assumes prev: "GET s (bp - 8) = Some (tg psz pa)" "GET s (bp - uint psz - 4) = Some (tg psz pa)"
    and blk: "GET s (bp - 4) = Some (tg sz False)"
    and nxt: "GET s (bp + uint sz - 4) = Some (tg nsz na)"
      "na \<or> GET s (bp + uint sz + uint nsz - 8) = Some (tg nsz False)"
    and al: "psz AND 7 = 0" "sz AND 7 = 0" "nsz AND 7 = 0"
    and ge: "8 \<le> uint psz" "8 \<le> uint sz" "na \<or> 8 \<le> uint nsz"
    and bnd: "uint psz + uint sz + uint nsz < 2 ^ 32" "mem_start_brk s \<le> bp - uint psz - 4"
      "bp + uint sz + uint nsz - 4 \<le> mem_brk s"
  shows "if pa \<and> na then coalesce s bp = Some (s, bp)
         else \<exists>s'. coalesce s bp = Some (s', if pa then bp else bp - uint psz) \<and>
                next_fit_ptr s' = (if pa then bp else bp - uint psz) \<and>
                tagged_block s' (if pa then bp else bp - uint psz)
                  (sz + ((if pa then 0 else psz) + (if na then 0 else nsz))) 0 \<and>
                uint (sz + ((if pa then 0 else psz) + (if na then 0 else nsz)))
                  = uint sz + (if pa then 0 else uint psz) + (if na then 0 else uint nsz)"
proof -
  have tb: "tagged_block s' r z 0"
    if "GET s' (r - 4) = Some (tg z False)" "GET s' (r + uint z - 8) = Some (tg z False)"
      "z AND 7 = 0" for s' r z
    using that by (simp add: tagged_block_def tg_def mm_simps)
  have w1: "tg nsz True AND 1 = 1"
    using al(3) by (simp add: tg_alloc)
  have lo: "mem_start_brk s \<le> bp - 4"
    using bnd(2) ge(1) by simp
  have hi: "bp + uint sz - 4 \<le> mem_brk s"
    using bnd(3) uint_ge_0 [of nsz] by linarith
  have s2: "uint sz + uint nsz < 2 ^ 32" "uint sz + uint psz < 2 ^ 32"
    using bnd(1) uint_ge_0 [of nsz] uint_ge_0 [of psz] by linarith+
  consider (c1) "pa" "na" | (c2) "pa" "\<not> na" | (c3) "\<not> pa" "na" | (c4) "\<not> pa" "\<not> na"
    by blast
  then show ?thesis
  proof cases
    case c1
    have "coalesce s bp = Some (s, bp)"
      using prev [unfolded c1(1) [THEN eqTrueI]] blk nxt(1) [unfolded c1(2) [THEN eqTrueI]] w1 al(1,2)
      by (rule coalesce_c1)
    with c1 show ?thesis
      by simp
  next
    case c2
    with nxt ge have n: "GET s (bp + uint sz - 4) = Some (tg nsz False)" "8 \<le> uint nsz"
      by simp_all
    have p: "GET s (bp - 8) = Some (tg psz True)" "GET s (bp - uint psz - 4) = Some (tg psz True)"
      using prev c2(1) by simp_all
    from coalesce_c2 [OF p blk n(1) al ge(2) n(2) s2(1) lo bnd(3)]
    obtain s' where r: "coalesce s bp = Some (s', bp)" "next_fit_ptr s' = bp"
      "GET s' (bp - 4) = Some (tg (sz + nsz) False)"
      "GET s' (bp + uint sz + uint nsz - 8) = Some (tg (sz + nsz) False)"
      "uint (sz + nsz) = uint sz + uint nsz" "(sz + nsz) AND 7 = 0"
      by blast
    have "GET s' (bp + uint (sz + nsz) - 8) = Some (tg (sz + nsz) False)"
      using r(4) unfolding r(5) by (simp add: algebra_simps)
    with r(3,6) have "tagged_block s' bp (sz + nsz) 0"
      by (intro tb)
    with r have "\<exists>s'. coalesce s bp = Some (s', bp) \<and> next_fit_ptr s' = bp \<and>
        tagged_block s' (bp) (sz + nsz) 0 \<and> uint (sz + nsz) = uint sz + uint nsz"
      by (intro exI [of _ s']) simp
    with c2 show ?thesis
      by simp
  next
    case c3
    have p: "GET s (bp - 8) = Some (tg psz False)" "GET s (bp - uint psz - 4) = Some (tg psz False)"
      using prev c3(1) by simp_all
    have n: "GET s (bp + uint sz - 4) = Some (tg nsz True)"
      using nxt(1) c3(2) by simp
    from coalesce_c3 [OF p blk n w1 al(1,2) ge(2,1) s2(2) bnd(2) hi]
    obtain s' where r: "coalesce s bp = Some (s', bp - uint psz)" "next_fit_ptr s' = bp - uint psz"
      "GET s' (bp - uint psz - 4) = Some (tg (sz + psz) False)"
      "GET s' (bp + uint sz - 8) = Some (tg (sz + psz) False)"
      "uint (sz + psz) = uint sz + uint psz" "(sz + psz) AND 7 = 0"
      by blast
    have "GET s' (bp - uint psz + uint (sz + psz) - 8) = Some (tg (sz + psz) False)"
      using r(4) unfolding r(5) by (simp add: algebra_simps)
    with r(3,6) have "tagged_block s' (bp - uint psz) (sz + psz) 0"
      by (intro tb)
    with r have "\<exists>s'. coalesce s bp = Some (s', bp - uint psz) \<and> next_fit_ptr s' = bp - uint psz \<and>
        tagged_block s' (bp - uint psz) (sz + psz) 0 \<and> uint (sz + psz) = uint sz + uint psz"
      by (intro exI [of _ s']) simp
    with c3 show ?thesis
      by simp
  next
    case c4
    with nxt ge have n: "GET s (bp + uint sz - 4) = Some (tg nsz False)"
      "GET s (bp + uint sz + uint nsz - 8) = Some (tg nsz False)" "8 \<le> uint nsz"
      by simp_all
    have p: "GET s (bp - 8) = Some (tg psz False)" "GET s (bp - uint psz - 4) = Some (tg psz False)"
      using prev c4(1) by simp_all
    have s3: "uint sz + uint psz + uint nsz < 2 ^ 32"
      using bnd(1) by linarith
    from coalesce_c4 [OF p blk n(1,2) al ge(2,1) n(3) s3 bnd(2,3)]
    obtain s' where r: "coalesce s bp = Some (s', bp - uint psz)" "next_fit_ptr s' = bp - uint psz"
      "GET s' (bp - uint psz - 4) = Some (tg (sz + (psz + nsz)) False)"
      "GET s' (bp + uint sz + uint nsz - 8) = Some (tg (sz + (psz + nsz)) False)"
      "uint (sz + (psz + nsz)) = uint sz + uint psz + uint nsz" "(sz + (psz + nsz)) AND 7 = 0"
      by blast
    have "GET s' (bp - uint psz + uint (sz + (psz + nsz)) - 8)
        = Some (tg (sz + (psz + nsz)) False)"
      using r(4) unfolding r(5) by (simp add: algebra_simps)
    with r(3,6) have "tagged_block s' (bp - uint psz) (sz + (psz + nsz)) 0"
      by (intro tb)
    with r have "\<exists>s'. coalesce s bp = Some (s', bp - uint psz) \<and> next_fit_ptr s' = bp - uint psz \<and>
        tagged_block s' (bp - uint psz) (sz + (psz + nsz)) 0 \<and> uint (sz + (psz + nsz)) = uint sz + uint psz + uint nsz"
      by (intro exI [of _ s']) simp
    with c4 show ?thesis
      by simp
  qed
qed

theorem coalesce_cursor_by_case_witness:
  "GET marked_alloc_nbrs 4120 = Some (tg 16 True) \<and> GET marked_alloc_nbrs 4108 = Some (tg 16 True) \<and>
   GET marked_alloc_nbrs 4124 = Some (tg 16 False) \<and> GET marked_alloc_nbrs 4140 = Some (tg 16 True) \<and>
   (16 :: uint32) AND 7 = 0 \<and> 8 \<le> uint (16 :: uint32) \<and>
   uint (16 :: uint32) + uint (16 :: uint32) + uint (16 :: uint32) < 2 ^ 32 \<and>
   mem_start_brk marked_alloc_nbrs \<le> 4108 \<and> 4156 \<le> mem_brk marked_alloc_nbrs \<and>
   next_fit_ptr marked_alloc_nbrs = 4160 \<and>
   coalesce marked_alloc_nbrs 4128 = Some (marked_alloc_nbrs, 4128) \<and>
   GET marked_free_nbrs 4120 = Some (tg 16 False) \<and> GET marked_free_nbrs 4108 = Some (tg 16 False) \<and>
   GET marked_free_nbrs 4124 = Some (tg 16 False) \<and>
   GET marked_free_nbrs 4140 = Some (tg 65504 False) \<and>
   GET marked_free_nbrs 69640 = Some (tg 65504 False) \<and>
   (65504 :: uint32) AND 7 = 0 \<and> 8 \<le> uint (65504 :: uint32) \<and>
   uint (16 :: uint32) + uint (16 :: uint32) + uint (65504 :: uint32) < 2 ^ 32 \<and>
   mem_start_brk marked_free_nbrs \<le> 4108 \<and> 69644 \<le> mem_brk marked_free_nbrs \<and>
   next_fit_ptr marked_free_nbrs = 4144 \<and>
   (\<exists>s'. coalesce marked_free_nbrs 4128 = Some (s', 4112) \<and> next_fit_ptr s' = 4112 \<and>
      tagged_block s' 4112 65536 0)"
proof -
  let ?XA = "free_marked heap_abc 4128"
  let ?XF = "do {
     s4 \<leftarrow> mm_free heap_abc 4112;
     s5 \<leftarrow> mm_free s4 4144;
     free_marked s5 4128
   }"
  have eA: "?XA \<bind> (\<lambda>s. Some (GET s 4120, GET s 4108, GET s 4124, GET s 4140,
      mem_start_brk s \<le> 4108, 4156 \<le> mem_brk s, next_fit_ptr s))
    = Some (Some (tg 16 True), Some (tg 16 True), Some (tg 16 False), Some (tg 16 True),
        True, True, 4160)"
    by code_simp
  have eF: "?XF \<bind> (\<lambda>s. Some (GET s 4120, GET s 4108, GET s 4124, GET s 4140, GET s 69640,
      mem_start_brk s \<le> 4108, 69644 \<le> mem_brk s, next_fit_ptr s))
    = Some (Some (tg 16 False), Some (tg 16 False), Some (tg 16 False), Some (tg 65504 False),
        Some (tg 65504 False), True, True, 4144)"
    by code_simp
  from eA obtain A where sA: "?XA = Some A"
    by (cases ?XA) simp_all
  from eF obtain F where sF: "?XF = Some F"
    by (cases ?XF) simp_all
  have mA: "marked_alloc_nbrs = A"
    unfolding marked_alloc_nbrs_def sA by simp
  have mF: "marked_free_nbrs = F"
    unfolding marked_free_nbrs_def sF by simp
  from eA [unfolded sA] have g: "GET A 4120 = Some (tg 16 True)" "GET A 4108 = Some (tg 16 True)"
    "GET A 4124 = Some (tg 16 False)" "GET A 4140 = Some (tg 16 True)"
    "mem_start_brk A \<le> 4108" "4156 \<le> mem_brk A" "next_fit_ptr A = 4160"
    by simp_all
  from eF [unfolded sF] have h: "GET F 4120 = Some (tg 16 False)" "GET F 4108 = Some (tg 16 False)"
    "GET F 4124 = Some (tg 16 False)" "GET F 4140 = Some (tg 65504 False)"
    "GET F 69640 = Some (tg 65504 False)"
    "mem_start_brk F \<le> 4108" "69644 \<le> mem_brk F" "next_fit_ptr F = 4144"
    by simp_all
  have w: "(16 :: uint32) AND 7 = 0" "8 \<le> uint (16 :: uint32)"
    "uint (16 :: uint32) + uint (16 :: uint32) + uint (16 :: uint32) < 2 ^ 32"
    "(65504 :: uint32) AND 7 = 0" "8 \<le> uint (65504 :: uint32)"
    "uint (16 :: uint32) + uint (16 :: uint32) + uint (65504 :: uint32) < 2 ^ 32"
    by simp_all
  from coalesce_cursor_by_case [of A 4128 16 True 16 16 True] g
  have r1: "coalesce A 4128 = Some (A, 4128)"
    by simp
  from coalesce_cursor_by_case [of F 4128 16 False 16 65504 False] h
  have r2: "\<exists>s'. coalesce F 4128 = Some (s', 4112) \<and> next_fit_ptr s' = 4112 \<and>
      tagged_block s' 4112 65536 0"
    by simp
  from g w(1-3) r1 h w(4-6) r2 show ?thesis
    unfolding mA mF by (intro conjI)
qed

theorem coalesce_no_merge_leaves_cursor:
  "do {
     (s0, _) \<leftarrow> mm_init boot;
     (s1, a) \<leftarrow> mm_malloc s0 8;
     (s2, b) \<leftarrow> mm_malloc s1 8;
     (s3, c) \<leftarrow> mm_malloc s2 8;
     s4 \<leftarrow> mm_free s3 b;
     Some (a, b, c, next_fit_ptr s3, next_fit_ptr s4, GET s4 (HDRP b))
   } = Some (4112, 4128, 4144, 4160, 4160, Some (PACK 16 0))"
  by code_simp

text \<open>
  Claim C3 (a defect of the code). The size adjustment of \<^verbatim>\<open>mm_malloc\<close> wraps around:
  for a request of 4294967288 bytes the adjusted size is 0. \<^verbatim>\<open>place\<close> then overwrites
  the footer of the block in front with the tag of size 0 and leaves the chosen block
  free, yet its pointer is returned. Freeing that pointer makes \<^verbatim>\<open>coalesce\<close> take the
  block itself for its free predecessor and double its size. In the run below the heap
  walk of \<^verbatim>\<open>mm_checkheap\<close> ends with the free block 4112 of size 64 directly followed
  by the free block 4176.
\<close>

theorem adjacent_free_blocks_after_wrap:
  "do {
     (s0, _) \<leftarrow> mm_init boot;
     (s1, a) \<leftarrow> mm_malloc s0 8;
     (s2, b) \<leftarrow> mm_malloc s1 8;
     (s3, c) \<leftarrow> mm_malloc s2 8;
     (s4, d) \<leftarrow> mm_malloc s3 8;
     s5 \<leftarrow> mm_free s4 a;
     s6 \<leftarrow> mm_free s5 b;
     (s7, p) \<leftarrow> mm_malloc s6 4294967288;
     s8 \<leftarrow> mm_free s7 p;
     out \<leftarrow> mm_checkheap s8 True;
     Some (a, b, c, d, p, steps s8 (heap_listp s8) 1, steps s8 (heap_listp s8) 2, out)
   } = Some (4112, 4128, 4144, 4160, 4112, Some 4112, Some 4176,
        [HeapLine 4104, HeaderFooterMismatch,
         BlockLine 4104 8 CHR ''a'' 0 CHR ''a'', HeaderFooterMismatch,
         BlockLine 4112 64 CHR ''f'' 16 CHR ''a'', HeaderFooterMismatch,
         BlockLine 4176 65472 CHR ''f'' 65472 CHR ''f'',
         EOL 69648])"
  by code_simp

text \<open>
  Claim C4 (a defect of the code). With the adjusted size wrapped to 0, \<^verbatim>\<open>place\<close>
  computes the footer address from a header of size 0 and so writes the tag of size 0
  into the footer of the block in front. After \<^verbatim>\<open>mm_malloc(4294967288)\<close> on the initial
  heap has returned 4112, the prologue block has the header 9 (size 8, allocated) and
  the footer 1, and \<^verbatim>\<open>mm_checkheap\<close> reports the mismatch.
\<close>

theorem prologue_footer_overwritten_after_wrap:
  "do {
     (s0, _) \<leftarrow> mm_init boot;
     (s1, p) \<leftarrow> mm_malloc s0 4294967288;
     out \<leftarrow> mm_checkheap s1 False;
     Some (adjust_size 4294967288, p, heap_listp s1, GET s1 (HDRP (heap_listp s1)),
           FTRP s1 (heap_listp s1), GET s1 (heap_listp s1), out)
   } = Some (0, 4112, 4104, Some 9, Some 4104, Some 1,
        [HeaderFooterMismatch, HeaderFooterMismatch])"
  by code_simp

text \<open>
  Claim C8 (a defect of the code). The adjusted size is computed in 32 bits without a
  check for overflow. For a request of 4294967295 bytes it is 8, and \<^verbatim>\<open>mm_malloc\<close>
  returns a block of 8 bytes in all: smaller than the request, and smaller than the
  minimum block size of 16.
\<close>

theorem mm_malloc_wrapped_block_size:
  "do {
     (s0, _) \<leftarrow> mm_init boot;
     (s1, p) \<leftarrow> mm_malloc s0 4294967295;
     bsize \<leftarrow> GET_SIZE s1 (HDRP p);
     Some (adjust_size 4294967295, p, bsize, GET_ALLOC s1 (HDRP p))
   } = Some (8, 4112, 8, Some 1)"
  by code_simp

end
